theory Spec2Isabelle
  imports Main
begin

section \<open>Python values, exceptions and dictionaries\<close>

text \<open>
  Exceptions of the source are values of the type \<open>error\<close>; a function that
  can raise returns \<open>error + 'a\<close> with \<open>Inl\<close> the raised exception.
\<close>

datatype error =
  IntegrityError | ValueError | ValidationError | KeyError | TypeError
  | UnboundLocalError | AttributeError | Exception

text \<open>
  A user object: a saved \<open>User\<close> with its primary key, or
  \<open>AnonymousUser\<close>, whose \<open>pk\<close> is \<open>None\<close>.
\<close>

datatype user = User (user_pk: "nat option") (username: string)

text \<open>The text of an integer: \<open>unicode(n)\<close> and \<open>"{0}".format(n)\<close>.\<close>

definition digit :: "nat \<Rightarrow> char" where
  "digit n = char_of (48 + n)"

fun show_nat :: "nat \<Rightarrow> string" where
  "show_nat n = (if n < 10 then [digit n] else show_nat (n div 10) @ [digit (n mod 10)])"

declare show_nat.simps [simp del]

definition show_int :: "int \<Rightarrow> string" where
  "show_int i = (if i < 0 then CHR ''-'' # show_nat (nat (- i)) else show_nat (nat i))"

text \<open>
  The values the model has: \<open>None\<close>, booleans, integers, texts and user
  objects.
\<close>

datatype pyval = PNone | PBool bool | PInt int | PStr string | PUser user

fun force_unicode :: "pyval \<Rightarrow> string" where
  "force_unicode PNone = ''None''"
| "force_unicode (PBool True) = ''True''"
| "force_unicode (PBool False) = ''False''"
| "force_unicode (PInt i) = show_int i"
| "force_unicode (PStr s) = s"
| "force_unicode (PUser u) = username u"

text \<open>Python truthiness: \<open>not v\<close> is \<open>\<not> truthy v\<close>.\<close>

fun truthy :: "pyval \<Rightarrow> bool" where
  "truthy PNone = False"
| "truthy (PBool b) = b"
| "truthy (PInt i) = (i \<noteq> 0)"
| "truthy (PStr s) = (s \<noteq> [])"
| "truthy (PUser u) = True"

text \<open>\<open>getattr(v, 'pk', None)\<close>: only a user object has the attribute.\<close>

fun getattr_pk :: "pyval \<Rightarrow> nat option" where
  "getattr_pk (PUser u) = user_pk u"
| "getattr_pk v = None"

text \<open>Truthiness of a primary key: \<open>None\<close> and \<open>0\<close> are falsy.\<close>

fun truthy_pk :: "nat option \<Rightarrow> bool" where
  "truthy_pk None = False"
| "truthy_pk (Some n) = (n \<noteq> 0)"

text \<open>
  A \<open>dict\<close> with string keys, as an association list with one entry per key.
  \<open>dict_set\<close> is \<open>d[k] = v\<close> and \<open>dict_get\<close> is \<open>d.get(k)\<close>,
  which gives \<open>None\<close> for a missing key.
\<close>

type_synonym dict = "(string \<times> pyval) list"

fun dict_set :: "dict \<Rightarrow> string \<Rightarrow> pyval \<Rightarrow> dict" where
  "dict_set [] k v = [(k, v)]"
| "dict_set ((k', v') # d) k v =
     (if k' = k then (k, v) # d else (k', v') # dict_set d k v)"

definition dict_get :: "dict \<Rightarrow> string \<Rightarrow> pyval" where
  "dict_get d k = (case map_of d k of None \<Rightarrow> PNone | Some v \<Rightarrow> v)"

text \<open>
  \<open>hasattr(d, name)\<close> on a \<open>dict\<close> looks for an attribute of the dict
  object (one of its methods), never for a key.
\<close>

definition dict_attributes :: "string list" where
  "dict_attributes =
     [''clear'', ''copy'', ''fromkeys'', ''get'', ''has_key'', ''items'',
      ''iteritems'', ''iterkeys'', ''itervalues'', ''keys'', ''pop'', ''popitem'',
      ''setdefault'', ''update'', ''values'', ''viewitems'', ''viewkeys'',
      ''viewvalues'']"

definition hasattr_dict :: "dict \<Rightarrow> string \<Rightarrow> bool" where
  "hasattr_dict d a = (a \<in> set dict_attributes)"

section \<open>Tracked models and their instances\<close>

text \<open>
  A model field as the source reads it: \<open>fobj.null\<close>,
  \<open>fobj.get_internal_type()\<close> and \<open>fobj.to_python\<close>, which raises
  \<open>ValidationError\<close> on a text it cannot convert.
\<close>

record field =
  null_allowed :: bool
  get_internal_type :: string
  to_python :: "pyval \<Rightarrow> error + pyval"

text \<open>
  A tracked model class: its \<open>__name__\<close>, the field names the registry
  holds for it (\<open>_registry[model]\<close>), \<open>_meta.get_field\<close> and the field
  values of a fresh instance \<open>model()\<close>.
\<close>

record model =
  model_name :: string
  registry :: "string list"
  get_field :: "string \<Rightarrow> field"
  defaults :: "string \<Rightarrow> pyval"

text \<open>
  An instance of a tracked model: its class, its primary key (\<open>None\<close>
  before the first save), its attributes, and the attribute \<open>revision_info\<close>,
  which an instance may not have.
\<close>

record entity =
  cls :: model
  pk :: "nat option"
  getattr :: "string \<Rightarrow> pyval"
  revision_info :: "dict option"

definition setattr :: "entity \<Rightarrow> string \<Rightarrow> pyval \<Rightarrow> entity" where
  "setattr obj f v = obj\<lparr>getattr := (getattr obj)(f := v)\<rparr>"

definition new_instance :: "model \<Rightarrow> entity" where
  "new_instance m =
     \<lparr>cls = m, pk = None, getattr = defaults m, revision_info = None\<rparr>"

section \<open>The Revision model and the store\<close>

text \<open>
  \<open>class Revision\<close>, as a row of its table. The generic foreign key
  \<open>content_object\<close> is the pair \<open>content_type\<close> (the model's name) and
  \<open>object_id\<close>; \<open>rev_id\<close> is the primary key \<open>id\<close>, \<open>None\<close>
  until the row is inserted; \<open>editor\<close> is the foreign key, the primary key
  of a user or \<open>None\<close>. The column \<open>created_at\<close> is left out: no
  function of the sources reads it.
\<close>

record Revision =
  rev_id :: "nat option"
  object_id :: nat
  content_type :: string
  revision :: int
  reverted :: bool
  sha1 :: string
  delta :: string
  comment :: string
  editor :: "int option"
  editor_ip :: "string option"

text \<open>
  The store: the table of revisions and the table of tracked entities, a row
  of which is the model's name, the primary key and the field values.
\<close>

record db =
  revisions :: "Revision list"
  entities :: "((string \<times> nat) \<times> (string \<Rightarrow> pyval)) list"

definition same_object :: "string \<Rightarrow> nat \<Rightarrow> Revision \<Rightarrow> bool" where
  "same_object ct oid r = (content_type r = ct \<and> object_id r = oid)"

definition id_key :: "Revision \<Rightarrow> nat" where
  "id_key r = (case rev_id r of None \<Rightarrow> 0 | Some i \<Rightarrow> i)"

text \<open>
  \<open>Revision.objects.get_for_object(obj)\<close>: the manager is not among the
  sources. Modelled from the spec: the revisions of one object reference
  (entity type and object identifier), in the default ordering of the model,
  \<open>ordering = ('-id',)\<close>.
\<close>

definition order_by_id_desc :: "Revision list \<Rightarrow> Revision list" where
  "order_by_id_desc rs = rev (sort_key id_key rs)"

definition get_for_object :: "db \<Rightarrow> string \<Rightarrow> nat \<Rightarrow> Revision list" where
  "get_for_object d ct oid =
     order_by_id_desc (filter (same_object ct oid) (revisions d))"

text \<open>\<open>.latest()\<close> with \<open>get_latest_by = 'id'\<close>; \<open>None\<close> is \<open>DoesNotExist\<close>.\<close>

definition latest :: "Revision list \<Rightarrow> Revision option" where
  "latest rs = (case order_by_id_desc rs of [] \<Rightarrow> None | r # _ \<Rightarrow> Some r)"

text \<open>
  \<open>unique_together = (("object_id", "content_type", "revision"),)\<close>: a row
  conflicts with another row of the same object and number.
\<close>

definition conflict :: "Revision list \<Rightarrow> Revision \<Rightarrow> bool" where
  "conflict rs r =
     list_ex (\<lambda>x. rev_id x \<noteq> rev_id r \<and> same_object (content_type r) (object_id r) x
                  \<and> revision x = revision r) rs"

definition next_id :: "Revision list \<Rightarrow> nat" where
  "next_id rs = Suc (fold max (map id_key rs) 0)"

text \<open>
  \<open>super(Revision, self).save()\<close>, the framework's save of one row: an
  insert when the instance has no id (the store gives it the next id), an
  update of the row with that id otherwise (an insert when there is none). The
  store rejects the write with \<open>IntegrityError\<close> when it breaks the
  uniqueness constraint.
\<close>

definition super_save :: "db \<Rightarrow> Revision \<Rightarrow> error + (db \<times> Revision)" where
  "super_save d r =
     (if conflict (revisions d) r then Inl IntegrityError
      else (case rev_id r of
              None \<Rightarrow>
                (let r' = r\<lparr>rev_id := Some (next_id (revisions d))\<rparr>
                 in Inr (d\<lparr>revisions := revisions d @ [r']\<rparr>, r'))
            | Some i \<Rightarrow>
                (if list_ex (\<lambda>x. rev_id x = Some i) (revisions d)
                 then Inr (d\<lparr>revisions :=
                        map (\<lambda>x. if rev_id x = Some i then r else x) (revisions d)\<rparr>, r)
                 else Inr (d\<lparr>revisions := revisions d @ [r]\<rparr>, r))))"

section \<open>Revision.save\<close>

text \<open>
  The first lines of \<open>Revision.save\<close>: the fingerprint of the delta
  (\<open>hashlib.sha1(...).hexdigest()\<close>, a parameter \<open>h\<close> here), and for a new
  revision the number after the latest revision of the object, or 1.
\<close>

definition prepare :: "(string \<Rightarrow> string) \<Rightarrow> db \<Rightarrow> Revision \<Rightarrow> Revision" where
  "prepare h d r =
     (let r1 = r\<lparr>sha1 := h (delta r)\<rparr> in
      if rev_id r1 = None then
        (case latest (get_for_object d (content_type r1) (object_id r1)) of
           Some l \<Rightarrow> r1\<lparr>revision := revision l + 1\<rparr>
         | None \<Rightarrow> r1\<lparr>revision := 1\<rparr>)
      else r1)"

text \<open>
  One pass of the \<open>while True\<close> loop: the row is saved, or the store raised
  \<open>IntegrityError\<close> and the loop goes on with the next number, or gives up
  and raises again.
\<close>

datatype outcome = Saved db Revision | Raised error | Retry Revision nat

definition save_attempt :: "db \<Rightarrow> Revision \<Rightarrow> nat \<Rightarrow> outcome" where
  "save_attempt d r attempt =
     (case super_save d r of
        Inr (d', r') \<Rightarrow> Saved d' r'
      | Inl e \<Rightarrow>
          (if e = IntegrityError then
             (let r' = r\<lparr>revision := revision r + 1\<rparr>; attempt' = attempt + 1
              in if attempt' > 20 then Raised e else Retry r' attempt')
           else Raised e))"

function save_loop :: "db \<Rightarrow> Revision \<Rightarrow> nat \<Rightarrow> db \<times> (error + Revision)" where
  "save_loop d r attempt =
     (case save_attempt d r attempt of
        Saved d' r' \<Rightarrow> (d', Inr r')
      | Raised e \<Rightarrow> (d, Inl e)
      | Retry r' attempt' \<Rightarrow> save_loop d r' attempt')"
  by pat_completeness auto
termination
proof (relation "measure (\<lambda>(d, r, attempt). 21 - attempt)")
  show "wf (measure (\<lambda>(d, r, attempt). 21 - attempt))" by simp
next
  fix d :: db and r r' :: Revision and attempt attempt' :: nat
  assume "save_attempt d r attempt = Retry r' attempt'"
  then have "attempt' = attempt + 1 \<and> attempt' \<le> 20"
    by (auto simp: save_attempt_def Let_def split: sum.splits if_splits)
  then show "((d, r', attempt'), (d, r, attempt)) \<in> measure (\<lambda>(d, r, attempt). 21 - attempt)"
    by auto
qed

declare save_loop.simps [simp del]

definition Revision_save :: "(string \<Rightarrow> string) \<Rightarrow> db \<Rightarrow> Revision \<Rightarrow> db \<times> (error + Revision)" where
  "Revision_save h d r = save_loop d (prepare h d r) 0"

text \<open>The row after \<open>k\<close> passes of \<open>self.revision += 1\<close>.\<close>

definition bump :: "Revision \<Rightarrow> nat \<Rightarrow> Revision" where
  "bump r k = r\<lparr>revision := revision r + int k\<rparr>"

section \<open>Concurrent writers\<close>

text \<open>
  Several callers run \<open>Revision.save\<close> at once. A writer that has not begun
  is \<open>Idle\<close>; after the first lines of \<open>save\<close> (the query for the latest
  revision) it is \<open>Trying\<close> with its candidate row and its attempt counter;
  each pass of the loop is one access to the store. The schedule lists which
  writer moves next; the store is shared.
\<close>

datatype writer = Idle Revision | Trying Revision nat | Finished Revision | Failed error

fun writer_step :: "(string \<Rightarrow> string) \<Rightarrow> db \<Rightarrow> writer \<Rightarrow> db \<times> writer" where
  "writer_step h d (Idle r) = (d, Trying (prepare h d r) 0)"
| "writer_step h d (Trying r attempt) =
     (case save_attempt d r attempt of
        Saved d' r' \<Rightarrow> (d', Finished r')
      | Raised e \<Rightarrow> (d, Failed e)
      | Retry r' attempt' \<Rightarrow> (d, Trying r' attempt'))"
| "writer_step h d w = (d, w)"

fun sys_step :: "(string \<Rightarrow> string) \<Rightarrow> db \<times> writer list \<Rightarrow> nat \<Rightarrow> db \<times> writer list" where
  "sys_step h (d, ws) i =
     (if i < length ws
      then (case writer_step h d (ws ! i) of (d', w') \<Rightarrow> (d', ws[i := w']))
      else (d, ws))"

definition run :: "(string \<Rightarrow> string) \<Rightarrow> nat list \<Rightarrow> db \<times> writer list \<Rightarrow> db \<times> writer list" where
  "run h sched s = foldl (sys_step h) s sched"

text \<open>The revision numbers of one object, in the order the rows were persisted.\<close>

definition numbers :: "db \<Rightarrow> string \<Rightarrow> nat \<Rightarrow> int list" where
  "numbers d ct oid =
     map revision (sort_key id_key (filter (same_object ct oid) (revisions d)))"

section \<open>The collaborators that are not among the sources\<close>

text \<open>
  \<open>hashlib\<close>, the diff library \<open>dmp\<close>, the functions of \<open>utils\<close> and the
  registry of tracked models are parameters of the model: \<open>'p\<close> is the
  library's type of patches, \<open>'d\<close> its type of diffs. \<open>patch_apply\<close> is the
  first component of the library's result, the patched text;
  \<open>diff_split_by_fields\<close> gives the items of the dict it returns;
  \<open>registered\<close> lists the tracked model classes, which a content type names;
  \<open>valid_datetime\<close> tells whether the framework reads a text as a date and
  time.
\<close>

record ('p, 'd) env =
  sha1_hexdigest :: "string \<Rightarrow> string"
  obj_diff :: "entity \<Rightarrow> entity \<Rightarrow> string"
  diff_split_by_fields :: "string \<Rightarrow> (string \<times> string) list"
  patch_fromText :: "string \<Rightarrow> error + 'p"
  patch_apply :: "'p \<Rightarrow> string \<Rightarrow> string"
  diff_main :: "string \<Rightarrow> string \<Rightarrow> 'd"
  diff_prettyHtml :: "'d \<Rightarrow> string"
  registered :: "model list"
  valid_datetime :: "string \<Rightarrow> bool"

text \<open>The request of the middleware: \<open>request.user\<close> and \<open>request.META.get("REMOTE_ADDR")\<close>.\<close>

record request =
  request_user :: pyval
  remote_addr :: pyval

text \<open>\<open>str.split(sep)\<close>.\<close>

fun split_on :: "char \<Rightarrow> string \<Rightarrow> string list" where
  "split_on c [] = [[]]"
| "split_on c (x # xs) =
     (if x = c then [] # split_on c xs
      else (case split_on c xs of [] \<Rightarrow> [[x]] | p # ps \<Rightarrow> (x # p) # ps))"

text \<open>\<open>sep.join(parts)\<close>.\<close>

fun join :: "string \<Rightarrow> string list \<Rightarrow> string" where
  "join sep [] = []"
| "join sep [x] = x"
| "join sep (x # y # ys) = x @ sep @ join sep (y # ys)"

text \<open>
  \<open>self.content_object\<close>: the generic foreign key reads the entity of the
  content type with the primary key \<open>object_id\<close>; it is \<open>None\<close> when there
  is none.
\<close>

definition load :: "model \<Rightarrow> nat \<Rightarrow> (string \<Rightarrow> pyval) \<Rightarrow> entity" where
  "load m k attrs = \<lparr>cls = m, pk = Some k, getattr = attrs, revision_info = None\<rparr>"

definition content_object :: "('p, 'd) env \<Rightarrow> db \<Rightarrow> Revision \<Rightarrow> entity option" where
  "content_object env d r =
     (case find (\<lambda>m. model_name m = content_type r) (registered env) of
        None \<Rightarrow> None
      | Some m \<Rightarrow>
          (case map_of (entities d) (content_type r, object_id r) of
             None \<Rightarrow> None
           | Some attrs \<Rightarrow> Some (load m (object_id r) attrs)))"

section \<open>The signal handlers\<close>

text \<open>
  \<open>pre_save(instance, sender=model)\<close>. \<open>request\<close> is what
  \<open>get_request()\<close> returns, and \<open>request_info\<close> is the block under
  \<open>if request\<close>. The last \<open>if\<close> of the source tests
  \<open>hasattr(info, 'editor')\<close> on the dict; \<open>or\<close> evaluates
  \<open>info['editor']\<close>, which can raise \<open>KeyError\<close>, only when that test
  is true.
\<close>

definition original_of :: "db \<Rightarrow> entity \<Rightarrow> entity" where
  "original_of d instance =
     (case pk instance of
        None \<Rightarrow> new_instance (cls instance)
      | Some k \<Rightarrow>
          (case map_of (entities d) (model_name (cls instance), k) of
             None \<Rightarrow> new_instance (cls instance)
           | Some attrs \<Rightarrow> load (cls instance) k attrs))"

definition request_info :: "request option \<Rightarrow> dict \<Rightarrow> dict" where
  "request_info req info =
     (case req of
        None \<Rightarrow> info
      | Some rq \<Rightarrow>
          (let i1 = (if \<not> truthy (dict_get info ''editor'')
                     then dict_set info ''editor'' (request_user rq) else info);
               i2 = (if \<not> truthy (dict_get i1 ''editor_ip'')
                     then dict_set i1 ''editor_ip'' (remote_addr rq) else i1)
           in i2))"

definition pre_save ::
  "('p, 'd) env \<Rightarrow> db \<Rightarrow> request option \<Rightarrow> entity \<Rightarrow> error + entity" where
  "pre_save env d req instance =
     (let info0 = (case revision_info instance of None \<Rightarrow> [] | Some i \<Rightarrow> i);
          original = original_of d instance;
          info1 = dict_set info0 ''delta'' (PStr (obj_diff env instance original));
          info2 = request_info req info1
      in if \<not> hasattr_dict info2 ''editor''
         then Inr (instance\<lparr>revision_info := Some (dict_set info2 ''editor'' PNone)\<rparr>)
         else (case map_of info2 ''editor'' of
                 None \<Rightarrow> Inl KeyError
               | Some e \<Rightarrow>
                   (if \<not> truthy_pk (getattr_pk e)
                    then Inr (instance\<lparr>revision_info := Some (dict_set info2 ''editor'' PNone)\<rparr>)
                    else Inr (instance\<lparr>revision_info := Some info2\<rparr>))))"

text \<open>
  \<open>int(s)\<close> of a text: blanks around an optional sign and decimal digits;
  \<open>None\<close> stands for the \<open>ValueError\<close> of any other text.
\<close>

definition blank :: "char \<Rightarrow> bool" where
  "blank c = (c \<in> set [CHR '' '', CHR 0x09, CHR 0x0A, CHR 0x0B, CHR 0x0C, CHR 0x0D])"

definition strip :: "string \<Rightarrow> string" where
  "strip s = rev (dropWhile blank (rev (dropWhile blank s)))"

fun digits :: "string \<Rightarrow> nat \<Rightarrow> nat option" where
  "digits [] n = Some n"
| "digits (c # cs) n =
     (let k = (of_char c :: nat)
      in if 48 \<le> k \<and> k \<le> 57 then digits cs (10 * n + (k - 48)) else None)"

definition int_of_text :: "string \<Rightarrow> int option" where
  "int_of_text s =
     (case strip s of
        [] \<Rightarrow> None
      | c # cs \<Rightarrow>
          (if c = CHR ''-'' then
             (if cs = [] then None else map_option (\<lambda>n. - int n) (digits cs 0))
           else if c = CHR ''+'' then
             (if cs = [] then None else map_option int (digits cs 0))
           else map_option int (digits (c # cs) 0)))"

text \<open>
  What the framework sends to an integer column for a value: \<open>None\<close> for
  \<open>None\<close>, and \<open>int(v)\<close> otherwise, which raises \<open>ValueError\<close> on a
  text that is no number and \<open>TypeError\<close> on an object.
\<close>

fun int_value :: "pyval \<Rightarrow> error + int option" where
  "int_value PNone = Inr None"
| "int_value (PBool b) = Inr (Some (if b then 1 else 0))"
| "int_value (PInt i) = Inr (Some i)"
| "int_value (PStr s) = (case int_of_text s of None \<Rightarrow> Inl ValueError | Some i \<Rightarrow> Inr (Some i))"
| "int_value (PUser u) = Inl TypeError"

text \<open>
  \<open>Revision(**info)\<close>. The constructor of a model takes a keyword for
  every field of the class (models.py 22-40) by its name, for a foreign key
  also by the name of its column (\<open>content_type_id\<close>, \<open>editor_id\<close>) when
  the name of the field is not passed, for the generic key
  \<open>content_object\<close> and for the property \<open>pk\<close>; any other keyword raises
  \<open>TypeError\<close>. Before that, three values are checked, in this order:

  \<^item> \<open>content_object\<close>, by the handler of the generic key: a falsy
    value raises \<open>Exception\<close>, a value that is no saved model instance
    has no \<open>_state\<close> and raises \<open>AttributeError\<close>; the handler replaces
    the keyword \<open>content_type\<close>;
  \<^item> \<open>content_type\<close>: the model has no value that is a content type
    object, so a keyword of this name raises \<open>ValueError\<close>;
  \<^item> \<open>editor\<close>: \<open>None\<close> or a saved user, anything else raises
    \<open>ValueError\<close>.

  The new object is given by the keywords it was made from; a field
  without a keyword has its default.
\<close>

definition field_names :: "string list" where
  "field_names =
     [''id'', ''object_id'', ''content_type'', ''revision'', ''reverted'', ''sha1'',
      ''delta'', ''created_at'', ''comment'', ''editor'', ''editor_ip'']"

fun saved_user :: "pyval \<Rightarrow> bool" where
  "saved_user (PUser u) = (user_pk u \<noteq> None)"
| "saved_user v = False"

definition keyword_ok :: "dict \<Rightarrow> string \<Rightarrow> bool" where
  "keyword_ok info k =
     (if k = ''editor_id'' then map_of info ''editor'' = None
      else if k = ''content_type_id''
        then map_of info ''content_type'' = None \<and> map_of info ''content_object'' = None
      else k \<in> set field_names \<or> k = ''content_object'' \<or> k = ''pk'')"

definition Revision_init :: "dict \<Rightarrow> error + dict" where
  "Revision_init info =
     (let keywords = (if list_all (keyword_ok info) (map fst info)
                      then Inr info else Inl TypeError);
          fields = (case map_of info ''editor'' of
                      None \<Rightarrow> keywords
                    | Some v \<Rightarrow> if v = PNone \<or> saved_user v then keywords
                                else Inl ValueError)
      in case map_of info ''content_object'' of
           Some v \<Rightarrow> (if \<not> truthy v then Inl Exception
                      else if \<not> saved_user v then Inl AttributeError
                      else fields)
         | None \<Rightarrow> (case map_of info ''content_type'' of
                      Some v \<Rightarrow> Inl ValueError
                    | None \<Rightarrow> fields))"

text \<open>
  The attributes of the object made from the keywords \<open>kw\<close>: \<open>attr\<close>
  is the keyword's value or the default of the field; the property \<open>pk\<close>
  is set after the fields, so it overrides \<open>id\<close>; \<open>editor_attr\<close> is
  \<open>self.editor_id\<close>.
\<close>

definition attr :: "dict \<Rightarrow> string \<Rightarrow> pyval \<Rightarrow> pyval" where
  "attr kw k dflt = (case map_of kw k of None \<Rightarrow> dflt | Some v \<Rightarrow> v)"

definition id_attr :: "dict \<Rightarrow> pyval" where
  "id_attr kw = (case map_of kw ''pk'' of None \<Rightarrow> attr kw ''id'' PNone | Some v \<Rightarrow> v)"

definition editor_attr :: "dict \<Rightarrow> pyval" where
  "editor_attr kw =
     (case map_of kw ''editor'' of
        None \<Rightarrow> attr kw ''editor_id'' PNone
      | Some (PUser u) \<Rightarrow> (case user_pk u of None \<Rightarrow> PNone | Some n \<Rightarrow> PInt (int n))
      | Some v \<Rightarrow> PNone)"

text \<open>
  The row that \<open>rev.content_object = instance; rev.save()\<close> sends to the
  table, \<open>ct\<close> and \<open>k\<close> being the content type and the primary key of
  the instance. The framework converts the primary key first, for the query
  that chooses between insert and update, then the columns in the order of
  the fields: \<open>revision\<close> (numbered by \<open>Revision.save\<close> when the id is
  \<open>None\<close>), \<open>created_at\<close>, \<open>editor_id\<close> (where the empty text is
  \<open>None\<close>); \<open>reverted\<close> is sent as \<open>bool(v)\<close> and a text column as
  the text of the value. \<open>sha1\<close>, \<open>object_id\<close> and
  \<open>content_type\<close> are overwritten before the row is sent, whatever the
  keywords said. Primary keys of the store are natural numbers: a negative
  id is outside the model and refused as \<open>ValueError\<close>. The table of users
  and the lengths of the columns are not modelled.
\<close>

definition created_at_value :: "('p, 'd) env \<Rightarrow> dict \<Rightarrow> error + bool" where
  "created_at_value env kw =
     (case map_of kw ''created_at'' of
        None \<Rightarrow> Inr True
      | Some v \<Rightarrow> if v = PNone then Inr False
                  else if valid_datetime env (force_unicode v) then Inr True
                  else Inl ValidationError)"

definition editor_value :: "pyval \<Rightarrow> error + int option" where
  "editor_value v = (if v = PStr [] then Inr None else int_value v)"

definition text_value :: "pyval \<Rightarrow> string option" where
  "text_value v = (if v = PNone then None else Some (force_unicode v))"

definition columns ::
  "('p, 'd) env \<Rightarrow> dict \<Rightarrow> string \<Rightarrow> nat option \<Rightarrow> error + Revision" where
  "columns env kw ct k =
     (case int_value (id_attr kw) of
        Inl e \<Rightarrow> Inl e
      | Inr i \<Rightarrow>
          if (case i of None \<Rightarrow> False | Some j \<Rightarrow> j < 0) then Inl ValueError
          else
     (case (if i = None then Inr None else int_value (attr kw ''revision'' PNone)) of
        Inl e \<Rightarrow> Inl e
      | Inr n \<Rightarrow>
     (case created_at_value env kw of
        Inl e \<Rightarrow> Inl e
      | Inr t \<Rightarrow>
     (case editor_value (editor_attr kw) of
        Inl e \<Rightarrow> Inl e
      | Inr ed \<Rightarrow>
          Inr \<lparr>rev_id = map_option nat i,
               object_id = (case k of None \<Rightarrow> 0 | Some j \<Rightarrow> j),
               content_type = ct,
               revision = (case n of None \<Rightarrow> 0 | Some j \<Rightarrow> j),
               reverted = truthy (attr kw ''reverted'' (PBool False)),
               sha1 = [],
               delta = force_unicode (attr kw ''delta'' (PStr [])),
               comment = force_unicode (attr kw ''comment'' (PStr [])),
               editor = ed,
               editor_ip = text_value (attr kw ''editor_ip'' PNone)\<rparr>))))"

text \<open>
  A column that is \<open>NOT NULL\<close> and would get \<open>None\<close>: the table refuses
  the row with \<open>IntegrityError\<close>, at every attempt.
\<close>

definition null_column :: "dict \<Rightarrow> nat option \<Rightarrow> bool" where
  "null_column kw k =
     (k = None
      \<or> (id_attr kw \<noteq> PNone \<and> attr kw ''revision'' PNone = PNone)
      \<or> attr kw ''reverted'' (PBool False) = PNone
      \<or> attr kw ''delta'' (PStr []) = PNone
      \<or> map_of kw ''created_at'' = Some PNone
      \<or> attr kw ''comment'' (PStr []) = PNone)"

text \<open>
  \<open>self.revision += 1\<close> in the retry of \<open>Revision.save\<close> works on a
  number: the one \<open>save\<close> has computed for an object without id, or a
  keyword that is an integer or a boolean. On a text or on \<open>None\<close> it
  raises \<open>TypeError\<close>, at the first \<open>IntegrityError\<close>.
\<close>

fun is_number :: "pyval \<Rightarrow> bool" where
  "is_number (PInt i) = True"
| "is_number (PBool b) = True"
| "is_number v = False"

definition save_new ::
  "('p, 'd) env \<Rightarrow> db \<Rightarrow> dict \<Rightarrow> string \<Rightarrow> nat option \<Rightarrow> db \<times> (error + Revision)" where
  "save_new env d kw ct k =
     (case columns env kw ct k of
        Inl e \<Rightarrow> (d, Inl e)
      | Inr r \<Rightarrow>
          if id_attr kw = PNone \<or> is_number (attr kw ''revision'' PNone) then
            (if null_column kw k then (d, Inl IntegrityError)
             else Revision_save (sha1_hexdigest env) d r)
          else
            (if null_column kw k then (d, Inl TypeError)
             else (case super_save d (prepare (sha1_hexdigest env) d r) of
                     Inl e \<Rightarrow> (d, Inl TypeError)
                   | Inr (d', r') \<Rightarrow> (d', Inr r'))))"

text \<open>
  \<open>post_save(instance)\<close>: \<open>if info\<close> is the truth value of the dict, false
  only for the empty one. \<open>rev.content_object = instance\<close> sets the content
  type and the object id; an instance the store has not given a primary key
  has none to give.
\<close>

definition post_save :: "('p, 'd) env \<Rightarrow> db \<Rightarrow> entity \<Rightarrow> db \<times> (error + entity)" where
  "post_save env d instance =
     (let info = (case revision_info instance of None \<Rightarrow> [] | Some i \<Rightarrow> i)
      in if info \<noteq> [] then
           (case Revision_init info of
              Inl e \<Rightarrow> (d, Inl e)
            | Inr kw \<Rightarrow>
                (case save_new env d kw (model_name (cls instance)) (pk instance) of
                   (d', Inl e) \<Rightarrow> (d', Inl e)
                 | (d', Inr r) \<Rightarrow> (d', Inr instance)))
         else (d, Inr instance))"

text \<open>
  \<open>instance.save()\<close> of a tracked model, with both handlers connected to
  its signals: the framework sends \<open>pre_save\<close>, writes the row (an insert
  gives the instance the next primary key of its table), and sends
  \<open>post_save\<close>.
\<close>

definition next_pk :: "((string \<times> nat) \<times> (string \<Rightarrow> pyval)) list \<Rightarrow> string \<Rightarrow> nat" where
  "next_pk es ct = Suc (fold max (map (snd \<circ> fst) (filter (\<lambda>e. fst (fst e) = ct) es)) 0)"

fun put_row ::
  "((string \<times> nat) \<times> (string \<Rightarrow> pyval)) list \<Rightarrow> string \<times> nat \<Rightarrow> (string \<Rightarrow> pyval)
     \<Rightarrow> ((string \<times> nat) \<times> (string \<Rightarrow> pyval)) list" where
  "put_row [] k v = [(k, v)]"
| "put_row ((k', v') # es) k v =
     (if k' = k then (k, v) # es else (k', v') # put_row es k v)"

definition write_entity :: "db \<Rightarrow> entity \<Rightarrow> db \<times> entity" where
  "write_entity d instance =
     (let ct = model_name (cls instance);
          k = (case pk instance of None \<Rightarrow> next_pk (entities d) ct | Some k \<Rightarrow> k)
      in (d\<lparr>entities := put_row (entities d) (ct, k) (getattr instance)\<rparr>,
          instance\<lparr>pk := Some k\<rparr>))"

definition entity_save ::
  "('p, 'd) env \<Rightarrow> db \<Rightarrow> request option \<Rightarrow> entity \<Rightarrow> db \<times> (error + entity)" where
  "entity_save env d req instance =
     (case pre_save env d req instance of
        Inl e \<Rightarrow> (d, Inl e)
      | Inr instance1 \<Rightarrow>
          (case write_entity d instance1 of
             (d1, instance2) \<Rightarrow> post_save env d1 instance2))"

section \<open>Revision.reapply\<close>

text \<open>
  The body of \<open>for key, diff in diffs.items()\<close> in \<open>reapply\<close>: a key that
  is not \<open>Model.field\<close> makes the unpacking raise \<open>ValueError\<close>; a key of
  another model or of a field the registry does not hold is skipped; the patch
  is applied to the text of the attribute and the result converted back.
\<close>

definition coerce :: "field \<Rightarrow> string \<Rightarrow> pyval" where
  "coerce fobj content =
     (let c1 = (if content = ''None'' \<and> null_allowed fobj then PNone else PStr content);
          c2 = (if get_internal_type fobj \<in> {''BooleanField'', ''NullBooleanField''}
                then (if c1 = PStr ''True'' then PBool True
                      else if c1 = PStr ''False'' then PBool False else c1)
                else c1)
      in c2)"

definition reapply_field ::
  "('p, 'd) env \<Rightarrow> entity \<Rightarrow> string \<times> string \<Rightarrow> error + entity" where
  "reapply_field env obj kd =
     (case split_on CHR ''.'' (fst kd) of
        [model2, f] \<Rightarrow>
          (if model2 \<noteq> model_name (cls obj) \<or> f \<notin> set (registry (cls obj)) then Inr obj
           else (case patch_fromText env (snd kd) of
                   Inl e \<Rightarrow> Inl e
                 | Inr patch \<Rightarrow>
                     (let content = patch_apply env patch (force_unicode (getattr obj f));
                          fobj = get_field (cls obj) f
                      in case to_python fobj (coerce fobj content) of
                           Inl e \<Rightarrow> Inl e
                         | Inr v \<Rightarrow> Inr (setattr obj f v))))
      | _ \<Rightarrow> Inl ValueError)"

fun reapply_diffs ::
  "('p, 'd) env \<Rightarrow> entity \<Rightarrow> (string \<times> string) list \<Rightarrow> error + entity" where
  "reapply_diffs env obj [] = Inr obj"
| "reapply_diffs env obj (kd # kds) =
     (case reapply_field env obj kd of
        Inl e \<Rightarrow> Inl e
      | Inr obj' \<Rightarrow> reapply_diffs env obj' kds)"

text \<open>
  \<open>for changeset in next_changes\<close>: the diffs of the changeset are applied
  to the object in memory, then the changeset is saved with
  \<open>reverted = True\<close>. An exception leaves the loop; what the store has
  already taken stays.
\<close>

fun reapply_changes ::
  "('p, 'd) env \<Rightarrow> db \<Rightarrow> entity \<Rightarrow> Revision list \<Rightarrow> db \<times> (error + entity)" where
  "reapply_changes env d obj [] = (d, Inr obj)"
| "reapply_changes env d obj (changeset # rest) =
     (case reapply_diffs env obj (diff_split_by_fields env (delta changeset)) of
        Inl e \<Rightarrow> (d, Inl e)
      | Inr obj' \<Rightarrow>
          (case Revision_save (sha1_hexdigest env) d (changeset\<lparr>reverted := True\<rparr>) of
             (d', Inl e) \<Rightarrow> (d', Inl e)
           | (d', Inr r) \<Rightarrow> reapply_changes env d' obj' rest))"

text \<open>\<open>.filter(revision__gt=self.revision).order_by('-revision')\<close>.\<close>

definition next_changes :: "db \<Rightarrow> Revision \<Rightarrow> Revision list" where
  "next_changes d self =
     rev (sort_key revision
       (filter (\<lambda>x. revision x > revision self)
          (get_for_object d (content_type self) (object_id self))))"

text \<open>
  \<open>reapply(self, editor_ip, editor)\<close>. Without a content object the manager
  has nothing to query, modelled as \<open>AttributeError\<close>.
\<close>

definition reapply ::
  "('p, 'd) env \<Rightarrow> db \<Rightarrow> request option \<Rightarrow> Revision \<Rightarrow> pyval \<Rightarrow> pyval
     \<Rightarrow> db \<times> (error + entity)" where
  "reapply env d req self ip ed =
     (case content_object env d self of
        None \<Rightarrow> (d, Inl AttributeError)
      | Some obj \<Rightarrow>
          (case reapply_changes env d obj (next_changes d self) of
             (d', Inl e) \<Rightarrow> (d', Inl e)
           | (d', Inr obj') \<Rightarrow>
               entity_save env d' req
                 (obj'\<lparr>revision_info := Some
                    [(''comment'', PStr (''Reverted to revision #'' @ show_int (revision self))),
                     (''editor_ip'', ip),
                     (''editor'', ed)]\<rparr>)))"

section \<open>Revision.display_diff\<close>

text \<open>
  The body of the inner loop of \<open>display_diff\<close>: the patched text is stored
  in the copy as it is.
\<close>

definition display_field ::
  "('p, 'd) env \<Rightarrow> entity \<Rightarrow> string \<times> string \<Rightarrow> error + entity" where
  "display_field env old kd =
     (case split_on CHR ''.'' (fst kd) of
        [model2, f] \<Rightarrow>
          (if model2 \<noteq> model_name (cls old) \<or> f \<notin> set (registry (cls old)) then Inr old
           else (case patch_fromText env (snd kd) of
                   Inl e \<Rightarrow> Inl e
                 | Inr patches \<Rightarrow>
                     Inr (setattr old f
                       (PStr (patch_apply env patches (force_unicode (getattr old f)))))))
      | _ \<Rightarrow> Inl ValueError)"

fun display_diffs ::
  "('p, 'd) env \<Rightarrow> entity \<Rightarrow> (string \<times> string) list \<Rightarrow> error + entity" where
  "display_diffs env old [] = Inr old"
| "display_diffs env old (kd # kds) =
     (case display_field env old kd of
        Inl e \<Rightarrow> Inl e
      | Inr old' \<Rightarrow> display_diffs env old' kds)"

text \<open>
  \<open>for i, changeset in enumerate(newer_changesets)\<close>: \<open>n\<close> is
  \<open>len(newer_changesets)\<close>, \<open>next_rev\<close> is \<open>None\<close> while the variable is
  unbound.
\<close>

fun display_loop ::
  "('p, 'd) env \<Rightarrow> nat \<Rightarrow> nat \<Rightarrow> entity \<Rightarrow> entity option \<Rightarrow> Revision list
     \<Rightarrow> error + (entity \<times> entity option)" where
  "display_loop env n i old next_rev [] = Inr (old, next_rev)"
| "display_loop env n i old next_rev (changeset # rest) =
     (let next_rev' = (if n = i + 1 then Some old else next_rev)
      in case display_diffs env old (diff_split_by_fields env (delta changeset)) of
           Inl e \<Rightarrow> Inl e
         | Inr old' \<Rightarrow> display_loop env n (i + 1) old' next_rev' rest)"

text \<open>\<open>.filter(revision__gte=self.revision)\<close>, in the default ordering.\<close>

definition newer_changesets :: "db \<Rightarrow> Revision \<Rightarrow> Revision list" where
  "newer_changesets d self =
     filter (\<lambda>x. revision x \<ge> revision self)
       (get_for_object d (content_type self) (object_id self))"

text \<open>The last loop: a heading and the rendered diff for every tracked field.\<close>

definition render :: "('p, 'd) env \<Rightarrow> entity \<Rightarrow> entity \<Rightarrow> string" where
  "render env old next_rev =
     join (''<br />'' @ [CHR 0x0A])
       (concat (map (\<lambda>f. [''<b>'' @ f @ ''</b>'',
                           diff_prettyHtml env
                             (diff_main env (force_unicode (getattr old f))
                                            (force_unicode (getattr next_rev f)))])
                    (registry (cls old))))"

definition display_diff :: "('p, 'd) env \<Rightarrow> db \<Rightarrow> Revision \<Rightarrow> error + string" where
  "display_diff env d self =
     (if delta self = [] then Inr []
      else (case content_object env d self of
              None \<Rightarrow> Inl AttributeError
            | Some obj \<Rightarrow>
                (let cs = newer_changesets d self
                 in case display_loop env (length cs) 0 obj None cs of
                      Inl e \<Rightarrow> Inl e
                    | Inr (old, next_rev) \<Rightarrow>
                        (if registry (cls old) = [] then Inr []
                         else (case next_rev of
                                 None \<Rightarrow> Inl UnboundLocalError
                               | Some nxt \<Rightarrow> Inr (render env old nxt))))))"

section \<open>The diff codec and the delta format\<close>

text \<open>
  \<open>utils.py\<close> and the diff library are not among the sources. The
  definitions of this section are one codec that meets the contract the spec
  gives for them; they are used where a claim is about the codec itself, and
  as the concrete collaborators of the examples.
\<close>

text \<open>
  Modelled from the spec: a diff artifact, as the list of operations that turn
  one text into another, each carrying its text.
\<close>

datatype op = Equal string | Delete string | Insert string

fun common_prefix :: "string \<Rightarrow> string \<Rightarrow> string" where
  "common_prefix (x # xs) (y # ys) = (if x = y then x # common_prefix xs ys else [])"
| "common_prefix xs ys = []"

definition common_suffix :: "string \<Rightarrow> string \<Rightarrow> string" where
  "common_suffix a b = rev (common_prefix (rev a) (rev b))"

text \<open>
  Modelled from the spec: \<open>diff(a, b)\<close> of the Field Diff Codec, "given two
  text values, produce a diff artifact": the text both share at the start and
  at the end is kept, the middle of \<open>a\<close> is deleted and the middle of \<open>b\<close>
  inserted.
\<close>

definition diff :: "string \<Rightarrow> string \<Rightarrow> op list" where
  "diff a b =
     (let p = common_prefix a b;
          a1 = drop (length p) a;
          b1 = drop (length p) b;
          s = common_suffix a1 b1
      in [Equal p, Delete (take (length a1 - length s) a1),
          Insert (take (length b1 - length s) b1), Equal s])"

text \<open>
  Modelled from the spec: \<open>apply(diff, text)\<close>, "given a diff artifact and a
  text value, apply it to produce another text value". \<open>apply_ops\<close> is
  \<open>None\<close> when the text is not the one the operations expect; the patch
  then leaves the text as it is.
\<close>

fun apply_ops :: "op list \<Rightarrow> string \<Rightarrow> string option" where
  "apply_ops [] t = (if t = [] then Some [] else None)"
| "apply_ops (Equal s # ops) t =
     (if take (length s) t = s then map_option ((@) s) (apply_ops ops (drop (length s) t))
      else None)"
| "apply_ops (Delete s # ops) t =
     (if take (length s) t = s then apply_ops ops (drop (length s) t) else None)"
| "apply_ops (Insert s # ops) t = map_option ((@) s) (apply_ops ops t)"

definition apply_patch :: "op list \<Rightarrow> string \<Rightarrow> string" where
  "apply_patch p t = (case apply_ops p t of None \<Rightarrow> t | Some t' \<Rightarrow> t')"

text \<open>
  Modelled from the spec: the text payload. The spec leaves "the exact
  block-separator and key-line syntax" to the writer and the reader; here a
  text is written after its length in unary, and a payload is a sequence of
  such texts.
\<close>

definition enc :: "string \<Rightarrow> string" where
  "enc s = replicate (length s) CHR ''1'' @ CHR ''0'' # s"

definition enc_list :: "string list \<Rightarrow> string" where
  "enc_list xs = concat (map enc xs)"

definition dec1 :: "string \<Rightarrow> (string \<times> string) option" where
  "dec1 t =
     (let n = length (takeWhile (\<lambda>c. c = CHR ''1'') t)
      in case drop n t of
           [] \<Rightarrow> None
         | c # r \<Rightarrow> if length r < n then None else Some (take n r, drop n r))"

lemma dec1_shorter: "dec1 t = Some (s, r) \<Longrightarrow> length r < length t"
  by (auto simp: dec1_def Let_def split: list.splits if_splits)
   (metis Suc_le_lessD diff_le_self drop_Cons' length_Cons length_drop le_trans not_less_eq_eq)

function dec_list :: "string \<Rightarrow> string list option" where
  "dec_list t =
     (if t = [] then Some []
      else (case dec1 t of
              None \<Rightarrow> None
            | Some (s, r) \<Rightarrow> map_option ((#) s) (dec_list r)))"
  by pat_completeness auto
termination
  by (relation "measure length") (auto dest: dec1_shorter)

declare dec_list.simps [simp del]

text \<open>
  Modelled from the spec: the patch-text notation of one field's diff, and
  its reader, which raises \<open>ValueError\<close> on a text that is no patch.
\<close>

fun op_text :: "op \<Rightarrow> string" where
  "op_text (Equal s) = CHR ''='' # s"
| "op_text (Delete s) = CHR ''-'' # s"
| "op_text (Insert s) = CHR ''+'' # s"

definition text_op :: "string \<Rightarrow> op option" where
  "text_op t =
     (case t of
        [] \<Rightarrow> None
      | c # s \<Rightarrow>
          (if c = CHR ''='' then Some (Equal s)
           else if c = CHR ''-'' then Some (Delete s)
           else if c = CHR ''+'' then Some (Insert s) else None))"

fun text_ops :: "string list \<Rightarrow> op list option" where
  "text_ops [] = Some []"
| "text_ops (t # ts) =
     (case text_op t of
        None \<Rightarrow> None
      | Some x \<Rightarrow> map_option ((#) x) (text_ops ts))"

definition patch_toText :: "op list \<Rightarrow> string" where
  "patch_toText ops = enc_list (map op_text ops)"

definition patch_of_text :: "string \<Rightarrow> error + op list" where
  "patch_of_text t =
     (case dec_list t of
        None \<Rightarrow> Inl ValueError
      | Some ts \<Rightarrow> (case text_ops ts of None \<Rightarrow> Inl ValueError | Some ops \<Rightarrow> Inr ops))"

text \<open>
  Modelled from the spec: the Delta Multiplexer, "one block per tracked field,
  each block keyed by \<open><entity-type-name>.<field-name>\<close>".
\<close>

definition pack :: "(string \<times> string) list \<Rightarrow> string" where
  "pack blocks = enc_list (concat (map (\<lambda>kd. [fst kd, snd kd]) blocks))"

fun pairs :: "string list \<Rightarrow> (string \<times> string) list" where
  "pairs (k # v # r) = (k, v) # pairs r"
| "pairs r = []"

definition unpack :: "string \<Rightarrow> (string \<times> string) list" where
  "unpack t = (case dec_list t of None \<Rightarrow> [] | Some ts \<Rightarrow> pairs ts)"

definition field_key :: "model \<Rightarrow> string \<Rightarrow> string" where
  "field_key m f = model_name m @ ''.'' @ f"

text \<open>
  Modelled from the spec: \<open>obj_diff(instance, original)\<close>. "The diff stored
  in a Revision's delta is computed as \<open>diff(new_value, old_value)\<close>", for
  every tracked field of the instance, on the texts of the two values.
\<close>

definition spec_obj_diff :: "entity \<Rightarrow> entity \<Rightarrow> string" where
  "spec_obj_diff instance original =
     pack (map (\<lambda>f. (field_key (cls instance) f,
                      patch_toText (diff (force_unicode (getattr instance f))
                                         (force_unicode (getattr original f)))))
               (registry (cls instance)))"

text \<open>Modelled from the spec: the "human-readable inline diff".\<close>

fun op_html :: "op \<Rightarrow> string" where
  "op_html (Equal s) = ''<span>'' @ s @ ''</span>''"
| "op_html (Delete s) = ''<del>'' @ s @ ''</del>''"
| "op_html (Insert s) = ''<ins>'' @ s @ ''</ins>''"

text \<open>A stand-in for the framework's reader of dates: a text \<open>YYYY-MM-DD\<close>.\<close>

definition date_text :: "string \<Rightarrow> bool" where
  "date_text s =
     (length s = 10
      \<and> list_all (\<lambda>i. if i = 4 \<or> i = 7 then s ! i = CHR ''-''
                       else 48 \<le> (of_char (s ! i) :: nat) \<and> (of_char (s ! i) :: nat) \<le> 57)
           [0 ..< 10])"

text \<open>The collaborators with this codec, a fingerprint \<open>h\<close> and the models \<open>ms\<close>.\<close>

definition codec :: "(string \<Rightarrow> string) \<Rightarrow> model list \<Rightarrow> (op list, op list) env" where
  "codec h ms =
     \<lparr>sha1_hexdigest = h, obj_diff = spec_obj_diff, diff_split_by_fields = unpack,
      patch_fromText = patch_of_text, patch_apply = apply_patch, diff_main = diff,
      diff_prettyHtml = (\<lambda>ops. concat (map op_html ops)), registered = ms,
      valid_datetime = date_text\<rparr>"

section \<open>Example data\<close>

text \<open>
  The framework's \<open>CharField\<close> and \<open>BooleanField\<close>, a tracked model
  \<open>Article\<close> with a title and a flag, a stand-in for the fingerprint, and
  the store after the title of article 1 went from the empty text to A, B
  and C: \<open>change i old new\<close> is the revision of one such edit.
\<close>

definition char_field :: field where
  "char_field =
     \<lparr>null_allowed = False, get_internal_type = ''CharField'',
      to_python = (\<lambda>v. Inr (case v of PNone \<Rightarrow> PNone | _ \<Rightarrow> PStr (force_unicode v)))\<rparr>"

definition boolean_field :: field where
  "boolean_field =
     \<lparr>null_allowed = False, get_internal_type = ''BooleanField'',
      to_python = (\<lambda>v. case v of
                     PBool b \<Rightarrow> Inr (PBool b)
                   | PInt i \<Rightarrow> (if i = 1 then Inr (PBool True)
                                else if i = 0 then Inr (PBool False)
                                else Inl ValidationError)
                   | PStr s \<Rightarrow> (if s \<in> {''t'', ''True'', ''1''} then Inr (PBool True)
                                else if s \<in> {''f'', ''False'', ''0''} then Inr (PBool False)
                                else Inl ValidationError)
                   | _ \<Rightarrow> Inl ValidationError)\<rparr>"

definition Article :: model where
  "Article =
     \<lparr>model_name = ''Article'', registry = [''title'', ''public''],
      get_field = (\<lambda>f. if f = ''public'' then boolean_field else char_field),
      defaults = (\<lambda>f. if f = ''public'' then PBool False else PStr [])\<rparr>"

definition digest :: "string \<Rightarrow> string" where
  "digest s = show_nat (length s)"

definition shop :: "(op list, op list) env" where
  "shop = codec digest [Article]"

definition empty_db :: db where
  "empty_db = \<lparr>revisions = [], entities = []\<rparr>"

definition article_with :: "string \<Rightarrow> entity" where
  "article_with t =
     \<lparr>cls = Article, pk = Some 1,
      getattr = (\<lambda>f. if f = ''public'' then PBool False else PStr t),
      revision_info = None\<rparr>"

definition change :: "nat \<Rightarrow> string \<Rightarrow> string \<Rightarrow> Revision" where
  "change i old new =
     \<lparr>rev_id = Some i, object_id = 1, content_type = ''Article'', revision = int i,
      reverted = False,
      sha1 = digest (spec_obj_diff (article_with new) (article_with old)),
      delta = spec_obj_diff (article_with new) (article_with old),
      comment = [], editor = None, editor_ip = None\<rparr>"

definition history :: db where
  "history =
     \<lparr>revisions = [change 1 [] ''A'', change 2 ''A'' ''B'', change 3 ''B'' ''C''],
      entities = [((''Article'', 1), getattr (article_with ''C''))]\<rparr>"

text \<open>A user, a request of hers, and the revert of article 1 to its first revision.\<close>

definition ann :: user where
  "ann = User (Some 7) ''ann''"

definition browser :: request where
  "browser = \<lparr>request_user = PUser ann, remote_addr = PStr ''10.0.0.9''\<rparr>"

definition reverted_to_first :: "request option \<Rightarrow> db \<times> (error + entity)" where
  "reverted_to_first req =
     reapply shop history req (change 1 [] ''A'') (PStr ''10.0.0.1'') (PUser ann)"

text \<open>
  The same store when the flag of the article was a text field at the time of
  the second edit: the delta of revision 2 takes the flag back to the text
  \<open>maybe\<close>, which the boolean field of today cannot hold.
\<close>

definition legacy_change :: Revision where
  "legacy_change =
     (change 2 ''A'' ''B'')\<lparr>delta :=
        pack [(''Article.public'', patch_toText (diff ''False'' ''maybe''))]\<rparr>"

definition legacy :: db where
  "legacy = history\<lparr>revisions := [change 1 [] ''A'', legacy_change, change 3 ''B'' ''C'']\<rparr>"

text \<open>A new revision of article 1, and rows of its table.\<close>

definition draft :: Revision where
  "draft = \<lparr>rev_id = None, object_id = 1, content_type = ''Article'', revision = 0,
     reverted = False, sha1 = [], delta = ''abc'', comment = [], editor = None,
     editor_ip = None\<rparr>"

definition row :: "nat \<Rightarrow> int \<Rightarrow> Revision" where
  "row i n = draft\<lparr>rev_id := Some i, revision := n, sha1 := digest (delta draft)\<rparr>"

text \<open>
  A table in which the latest row has number 1 and the numbers 2 to
  \<open>n + 1\<close> are taken.
\<close>

definition crowded :: "nat \<Rightarrow> db" where
  "crowded n =
     \<lparr>revisions = map (\<lambda>i. row i (int i + 1)) [1..<Suc n] @ [row (Suc n) 1], entities = []\<rparr>"

text \<open>
  Twenty-two writers of one article on an empty table. Writer 1 saves number
  1; writer 0 reads it as the latest; writers 2 to 21 save the numbers 2 to
  21; then writer 0 makes its attempts.
\<close>

definition race_writers :: "writer list" where
  "race_writers = replicate 22 (Idle draft)"

definition race_schedule :: "nat list" where
  "race_schedule = [1, 1, 0] @ concat (map (\<lambda>i. [i, i]) [2..<22]) @ replicate 21 0"

section \<open>Invariants of the table of revisions\<close>

text \<open>
  The rows of one object, in the order of the table. In a \<open>numbered\<close> store
  every row has an id, the ids grow along the table, and the rows of every
  object carry the numbers 1, 2, 3, ... in that order. A writer is consistent
  with the store when its row is a new one and, once it has a candidate, the
  candidate is at most one past the numbers taken.
\<close>

definition of_object :: "db \<Rightarrow> string \<Rightarrow> nat \<Rightarrow> Revision list" where
  "of_object d ct oid = filter (same_object ct oid) (revisions d)"

definition numbered :: "db \<Rightarrow> bool" where
  "numbered d =
     (sorted_wrt (<) (map id_key (revisions d))
      \<and> (\<forall>x\<in>set (revisions d). rev_id x \<noteq> None)
      \<and> (\<forall>ct oid. map revision (of_object d ct oid)
            = map int [1..<Suc (length (of_object d ct oid))]))"

fun writer_ok :: "db \<Rightarrow> writer \<Rightarrow> bool" where
  "writer_ok d (Idle r) = (rev_id r = None)"
| "writer_ok d (Trying r attempt) =
     (rev_id r = None \<and> 1 \<le> revision r
      \<and> revision r \<le> int (length (of_object d (content_type r) (object_id r))) + 1)"
| "writer_ok d w = True"

definition sys_ok :: "db \<times> writer list \<Rightarrow> bool" where
  "sys_ok s = (numbered (fst s) \<and> (\<forall>w\<in>set (snd s). writer_ok (fst s) w))"

section \<open>What a revert is to do\<close>

text \<open>
  \<open>replay\<close> is the loop of \<open>reapply\<close> without its saves: the deltas of
  a list of revisions applied to the entity one after the other. A revision
  is \<open>flagged\<close> in a store when the store has a row under its id and every
  such row has \<open>reverted = True\<close>.
\<close>

fun replay :: "('p, 'd) env \<Rightarrow> entity \<Rightarrow> Revision list \<Rightarrow> error + entity" where
  "replay env obj [] = Inr obj"
| "replay env obj (c # cs) =
     (case reapply_diffs env obj (diff_split_by_fields env (delta c)) of
        Inl e \<Rightarrow> Inl e
      | Inr obj' \<Rightarrow> replay env obj' cs)"

definition flagged :: "db \<Rightarrow> Revision \<Rightarrow> bool" where
  "flagged d x =
     (list_ex (\<lambda>y. rev_id y = rev_id x) (revisions d)
      \<and> list_all (\<lambda>y. rev_id y = rev_id x \<longrightarrow> reverted y) (revisions d))"

text \<open>
  The replay as the spec words it (4.2 and 4.4). A field diff belongs to the
  field \<open>f\<close> of the model \<open>m\<close> when its key is
  \<open>"<entity-type-name>.<field-name>"\<close>. Applying it patches the text of the
  field's value and converts the result back: the placeholder of absence to
  the null value when the field is nullable, the tokens of a boolean field to
  the booleans, and the result through the field's own parser.
  \<open>spec_revert\<close> is the value of one field after the field diffs of a list
  of revisions were applied in the order of the list.
\<close>

definition spec_native :: "field \<Rightarrow> string \<Rightarrow> error + pyval" where
  "spec_native fobj t =
     to_python fobj
       (if null_allowed fobj \<and> t = ''None'' then PNone
        else if get_internal_type fobj \<in> {''BooleanField'', ''NullBooleanField''}
                \<and> t = ''True'' then PBool True
        else if get_internal_type fobj \<in> {''BooleanField'', ''NullBooleanField''}
                \<and> t = ''False'' then PBool False
        else PStr t)"

definition spec_apply :: "('p, 'd) env \<Rightarrow> field \<Rightarrow> pyval \<Rightarrow> string \<Rightarrow> error + pyval" where
  "spec_apply env fobj v diff_text =
     (case patch_fromText env diff_text of
        Inl e \<Rightarrow> Inl e
      | Inr p \<Rightarrow> spec_native fobj (patch_apply env p (force_unicode v)))"

fun spec_apply_all ::
  "('p, 'd) env \<Rightarrow> field \<Rightarrow> pyval \<Rightarrow> string list \<Rightarrow> error + pyval" where
  "spec_apply_all env fobj v [] = Inr v"
| "spec_apply_all env fobj v (t # ts) =
     (case spec_apply env fobj v t of
        Inl e \<Rightarrow> Inl e
      | Inr w \<Rightarrow> spec_apply_all env fobj w ts)"

definition spec_field_diffs :: "(string \<times> string) list \<Rightarrow> model \<Rightarrow> string \<Rightarrow> string list" where
  "spec_field_diffs blocks m f =
     map snd (filter (\<lambda>kd. fst kd = model_name m @ ''.'' @ f) blocks)"

definition spec_revert ::
  "('p, 'd) env \<Rightarrow> model \<Rightarrow> string \<Rightarrow> pyval \<Rightarrow> Revision list \<Rightarrow> error + pyval" where
  "spec_revert env m f v cs =
     spec_apply_all env (get_field m f) v
       (concat (map (\<lambda>c. spec_field_diffs (diff_split_by_fields env (delta c)) m f) cs))"

lemma super_save_ids:
  assumes "super_save d r = Inr (d', r')"
  shows "rev_id ` set (revisions d) \<subseteq> rev_id ` set (revisions d')"
proof (cases "rev_id r")
  case None
  with assms show ?thesis by (auto simp: super_save_def Let_def split: if_splits)
next
  case (Some i)
  show ?thesis
  proof (cases "list_ex (\<lambda>x. rev_id x = Some i) (revisions d)")
    case True
    with assms Some have d': "revisions d' = map (\<lambda>x. if rev_id x = Some i then r else x) (revisions d)"
      by (auto simp: super_save_def split: if_splits)
    have "map rev_id (revisions d') = map rev_id (revisions d)"
      unfolding d' using Some by (induction "revisions d") auto
    then show ?thesis by (metis order_refl set_map)
  next
    case False
    with assms Some show ?thesis by (auto simp: super_save_def split: if_splits)
  qed
qed

section \<open>What a rendered diff is to show\<close>

text \<open>
  A store is \<open>ordered\<close> when the ids grow along the table and, within one
  object, the revision numbers grow with the ids. \<open>display_replay\<close> is the
  replay of the display: the deltas of a list of revisions applied one after
  the other to the texts of a copy.
\<close>

definition ordered :: "db \<Rightarrow> bool" where
  "ordered d =
     sorted_wrt (\<lambda>x y. id_key x < id_key y
                   \<and> (same_object (content_type x) (object_id x) y \<longrightarrow> revision x < revision y))
       (revisions d)"

fun display_replay :: "('p, 'd) env \<Rightarrow> entity \<Rightarrow> Revision list \<Rightarrow> error + entity" where
  "display_replay env old [] = Inr old"
| "display_replay env old (c # cs) =
     (case display_diffs env old (diff_split_by_fields env (delta c)) of
        Inl e \<Rightarrow> Inl e
      | Inr old' \<Rightarrow> display_replay env old' cs)"

section \<open>Stores that differ in their reverted flags\<close>

text \<open>
  \<open>reflag g d\<close> is the store \<open>d\<close> with the flag of every row set anew, to
  \<open>g\<close> of the row. Two stores are similar when they hold the same entities
  and the same rows up to the flags; two results are similar when they carry the
  same value or error and similar stores.
\<close>

definition unflag :: "Revision \<Rightarrow> Revision" where
  "unflag r = r\<lparr>reverted := False\<rparr>"

definition reflag :: "(Revision \<Rightarrow> bool) \<Rightarrow> db \<Rightarrow> db" where
  "reflag g d = d\<lparr>revisions := map (\<lambda>r. r\<lparr>reverted := g r\<rparr>) (revisions d)\<rparr>"

definition sim :: "db \<Rightarrow> db \<Rightarrow> bool" where
  "sim a b = (entities a = entities b \<and> map unflag (revisions a) = map unflag (revisions b))"

definition sim_res :: "db \<times> (error + 'a) \<Rightarrow> db \<times> (error + 'a) \<Rightarrow> bool" where
  "sim_res x y = (sim (fst x) (fst y) \<and> snd x = snd y)"

section \<open>Saving a revision\<close>

lemma fold_max_ge: "(m::nat) \<le> fold max xs m"
proof (induction xs arbitrary: m)
  case Nil
  then show ?case by simp
next
  case (Cons a xs)
  have "m \<le> max a m" by simp
  also have "\<dots> \<le> fold max xs (max a m)" by (rule Cons.IH)
  finally show ?case by simp
qed

lemma id_key_le_fold_max: "x \<in> set rs \<Longrightarrow> id_key x \<le> fold max (map id_key rs) m"
proof (induction rs arbitrary: m)
  case Nil
  then show ?case by simp
next
  case (Cons a rs)
  show ?case
  proof (cases "x = a")
    case True
    have "id_key a \<le> max (id_key a) m" by simp
    also have "\<dots> \<le> fold max (map id_key rs) (max (id_key a) m)" by (rule fold_max_ge)
    finally show ?thesis using True by simp
  next
    case False
    with Cons show ?thesis by simp
  qed
qed

lemma next_id_fresh: "x \<in> set rs \<Longrightarrow> rev_id x \<noteq> Some (next_id rs)"
  using id_key_le_fold_max[of x rs 0] by (auto simp: next_id_def id_key_def split: option.splits)

lemma super_save_Inr:
  assumes "super_save d r = Inr (d', r')"
  shows "r' \<in> set (revisions d')" "sha1 r' = sha1 r" "delta r' = delta r"
    "revision r' = revision r" "reverted r' = reverted r"
    "content_type r' = content_type r" "object_id r' = object_id r"
    "rev_id r' \<noteq> None" "entities d' = entities d"
    "\<forall>x\<in>set (revisions d'). rev_id x = rev_id r' \<longrightarrow> x = r'"
    "\<forall>x\<in>set (revisions d'). x = r' \<or> x \<in> set (revisions d)"
    "\<not> conflict (revisions d) r"
  using assms next_id_fresh[of _ "revisions d"]
  by (auto simp: super_save_def Let_def list_ex_iff split: if_splits option.splits)

lemma super_save_Inl: "super_save d r = Inl e \<Longrightarrow> e = IntegrityError \<and> conflict (revisions d) r"
  by (auto simp: super_save_def Let_def split: if_splits option.splits)

lemma save_loop_Inr:
  "save_loop d r a = (d', Inr r') \<Longrightarrow> \<exists>k. super_save d (bump r k) = Inr (d', r')"
proof (induction d r a rule: save_loop.induct)
  case (1 d r a)
  show ?case
  proof (cases "save_attempt d r a")
    case (Saved d2 r2)
    with 1(2) have "super_save d r = Inr (d', r')"
      by (auto simp: save_loop.simps[of d r a] save_attempt_def Let_def split: sum.splits if_splits)
    then have "super_save d (bump r 0) = Inr (d', r')" by (simp add: bump_def)
    then show ?thesis by blast
  next
    case (Raised e)
    with 1(2) show ?thesis by (simp add: save_loop.simps[of d r a])
  next
    case (Retry r2 a2)
    with 1(2) have "save_loop d r2 a2 = (d', Inr r')" by (simp add: save_loop.simps[of d r a])
    with 1(1)[OF Retry] obtain k where k: "super_save d (bump r2 k) = Inr (d', r')" by blast
    from Retry have "r2 = bump r 1"
      by (auto simp: save_attempt_def Let_def bump_def split: sum.splits if_splits)
    then have "bump r2 k = bump r (Suc k)" by (simp add: bump_def)
    with k show ?thesis by metis
  qed
qed


text \<open>
  C7. After a successful \<open>Revision.save\<close>, of a new revision or of a stored
  one saved again, the row the store holds under the revision's id is the
  returned one: its fingerprint is the hash of its delta, and the delta is the
  one that was passed in. If every row of the table satisfied this before, every
  row does after.
\<close>

theorem Revision_save_fingerprint:
  assumes "Revision_save h d r = (d', Inr r')"
  shows "r' \<in> set (revisions d') \<and> sha1 r' = h (delta r') \<and> delta r' = delta r
     \<and> (\<forall>x\<in>set (revisions d'). rev_id x = rev_id r' \<longrightarrow> x = r')
     \<and> ((\<forall>x\<in>set (revisions d). sha1 x = h (delta x))
          \<longrightarrow> (\<forall>x\<in>set (revisions d'). sha1 x = h (delta x)))"
proof -
  from assms obtain k where k: "super_save d (bump (prepare h d r) k) = Inr (d', r')"
    unfolding Revision_save_def by (blast dest: save_loop_Inr)
  have p: "sha1 (bump (prepare h d r) k) = h (delta r)" "delta (bump (prepare h d r) k) = delta r"
    by (auto simp: prepare_def bump_def Let_def split: option.splits)
  from super_save_Inr(1,2,3,10)[OF k] p
  have 1: "r' \<in> set (revisions d')" "sha1 r' = h (delta r')" "delta r' = delta r"
    "\<forall>x\<in>set (revisions d'). rev_id x = rev_id r' \<longrightarrow> x = r'" by simp_all
  have "\<forall>x\<in>set (revisions d'). sha1 x = h (delta x)"
    if "\<forall>x\<in>set (revisions d). sha1 x = h (delta x)"
    using super_save_Inr(11)[OF k] that 1(2) by auto
  with 1 show ?thesis by blast
qed

theorem Revision_save_fingerprint_witness:
  "row 1 1 \<in> set (revisions (fst (Revision_save digest empty_db draft)))
   \<and> sha1 (row 1 1) = digest (delta (row 1 1))"
proof -
  have "snd (Revision_save digest empty_db draft) = Inr (row 1 1)" by code_simp
  then have "Revision_save digest empty_db draft
      = (fst (Revision_save digest empty_db draft), Inr (row 1 1))"
    by (metis prod.collapse)
  from Revision_save_fingerprint[OF this] show ?thesis by blast
qed

section \<open>The retry loop\<close>

lemma save_attempt_free:
  "\<not> conflict (revisions d) r \<Longrightarrow> \<exists>d' r'. super_save d r = Inr (d', r') \<and> save_attempt d r a = Saved d' r'"
  by (auto simp: super_save_def save_attempt_def Let_def split: option.splits)

lemma save_attempt_conflict:
  "conflict (revisions d) r \<Longrightarrow>
     save_attempt d r a = (if a + 1 > 20 then Raised IntegrityError else Retry (bump r 1) (a + 1))"
  by (simp add: super_save_def save_attempt_def Let_def bump_def)

lemma bump_bump: "bump (bump r j) k = bump r (j + k)"
  by (simp add: bump_def)

lemma bump_0: "bump r 0 = r"
  by (simp add: bump_def)

lemma save_loop_exhausted:
  "a + n = 20 \<Longrightarrow> \<forall>k\<le>n. conflict (revisions d) (bump r k) \<Longrightarrow> save_loop d r a = (d, Inl IntegrityError)"
proof (induction n arbitrary: r a)
  case 0
  then have "conflict (revisions d) r" by (simp add: bump_0)
  with 0 show ?case by (subst save_loop.simps) (simp add: save_attempt_conflict)
next
  case (Suc n)
  from Suc.prems(2) have c: "conflict (revisions d) r" by (metis bump_0 le0)
  have "\<forall>k\<le>n. conflict (revisions d) (bump (bump r 1) k)"
    using Suc.prems(2) by (simp add: bump_bump)
  from Suc.IH[OF _ this, of "a + 1"] Suc.prems(1)
  have "save_loop d (bump r 1) (a + 1) = (d, Inl IntegrityError)" by simp
  with c Suc.prems(1) show ?case by (subst save_loop.simps) (simp add: save_attempt_conflict)
qed

lemma save_loop_first_free:
  "a + k \<le> 20 \<Longrightarrow> \<forall>j<k. conflict (revisions d) (bump r j) \<Longrightarrow> \<not> conflict (revisions d) (bump r k)
     \<Longrightarrow> \<exists>d' r'. super_save d (bump r k) = Inr (d', r') \<and> save_loop d r a = (d', Inr r')"
proof (induction k arbitrary: r a)
  case 0
  from save_attempt_free[of d r a] 0 show ?case
    by (subst save_loop.simps) (auto simp: bump_0)
next
  case (Suc k)
  from Suc.prems(2) have c: "conflict (revisions d) r" by (metis bump_0 zero_less_Suc)
  have 1: "\<forall>j<k. conflict (revisions d) (bump (bump r 1) j)"
    using Suc.prems(2) by (simp add: bump_bump)
  have 2: "\<not> conflict (revisions d) (bump (bump r 1) k)"
    using Suc.prems(3) by (simp add: bump_bump)
  from Suc.IH[OF _ 1 2, of "a + 1"] Suc.prems(1)
  obtain d' r' where "super_save d (bump (bump r 1) k) = Inr (d', r')"
    "save_loop d (bump r 1) (a + 1) = (d', Inr r')" by auto
  with c Suc.prems(1) show ?case
    by (subst save_loop.simps) (simp add: save_attempt_conflict bump_bump)
qed

lemma ex_first_free:
  fixes n :: nat
  assumes "\<not> (\<forall>k\<le>n. P k)"
  shows "\<exists>k\<le>n. \<not> P k \<and> (\<forall>j<k. P j)"
proof -
  from assms obtain k where k: "k \<le> n" "\<not> P k" by auto
  then have "\<exists>m. \<not> P m \<and> (\<forall>j<m. \<not> \<not> P j)"
    using exists_least_iff[of "\<lambda>k. \<not> P k"] by blast
  then obtain m where m: "\<not> P m" "\<forall>j<m. P j" by auto
  with k have "m \<le> n" by (meson not_le_imp_less le_trans)
  with m show ?thesis by blast
qed

text \<open>
  C3, as the code has it. \<open>Revision.save\<close> raises exactly when the
  candidate number and the twenty numbers after it are all taken, that is after
  twenty-one rejected attempts; the store is then as it was and the error is the
  store's \<open>IntegrityError\<close>, raised again to the caller. Otherwise the row is
  persisted under the first free number among these twenty-one.
\<close>

theorem Revision_save_retry_bound:
  "(Revision_save h d r = (d', Inl e) \<longleftrightarrow>
      (\<forall>k\<le>20. conflict (revisions d) (bump (prepare h d r) k)) \<and> d' = d \<and> e = IntegrityError)
   \<and> (Revision_save h d r = (d', Inr r') \<longrightarrow>
      (\<exists>k\<le>20. (\<forall>j<k. conflict (revisions d) (bump (prepare h d r) j))
         \<and> \<not> conflict (revisions d) (bump (prepare h d r) k)
         \<and> revision r' = revision (prepare h d r) + int k
         \<and> r' \<in> set (revisions d')))"
proof (cases "\<forall>k\<le>20. conflict (revisions d) (bump (prepare h d r) k)")
  case True
  from save_loop_exhausted[of 0 20 d "prepare h d r"] True
  have "Revision_save h d r = (d, Inl IntegrityError)" by (simp add: Revision_save_def)
  with True show ?thesis by auto
next
  case False
  from ex_first_free[OF False] obtain k where k: "k \<le> 20"
    "\<not> conflict (revisions d) (bump (prepare h d r) k)"
    "\<forall>j<k. conflict (revisions d) (bump (prepare h d r) j)" by blast
  from save_loop_first_free[of 0 k d "prepare h d r"] k
  obtain d2 r2 where s: "super_save d (bump (prepare h d r) k) = Inr (d2, r2)"
    "Revision_save h d r = (d2, Inr r2)" by (auto simp: Revision_save_def)
  have "revision r2 = revision (prepare h d r) + int k" "r2 \<in> set (revisions d2)"
    using super_save_Inr(1,4)[OF s(1)] by (simp_all add: bump_def)
  with s(2) k False show ?thesis by auto
qed

theorem Revision_save_retry_bound_witness:
  "conflict (revisions (crowded 21)) (bump (prepare digest (crowded 21) draft) 20)
   \<and> (\<exists>k\<le>20. revision (row 22 22) = revision (prepare digest (crowded 20) draft) + int k)"
proof -
  have "snd (Revision_save digest (crowded 21) draft) = Inl IntegrityError" by code_simp
  then have 1: "Revision_save digest (crowded 21) draft
      = (fst (Revision_save digest (crowded 21) draft), Inl IntegrityError)"
    by (metis prod.collapse)
  have "snd (Revision_save digest (crowded 20) draft) = Inr (row 22 22)" by code_simp
  then have 2: "Revision_save digest (crowded 20) draft
      = (fst (Revision_save digest (crowded 20) draft), Inr (row 22 22))"
    by (metis prod.collapse)
  from Revision_save_retry_bound[of digest "crowded 21" draft
      "fst (Revision_save digest (crowded 21) draft)" IntegrityError] 1
  have "conflict (revisions (crowded 21)) (bump (prepare digest (crowded 21) draft) 20)"
    by blast
  moreover from Revision_save_retry_bound[of digest "crowded 20" draft
      "fst (Revision_save digest (crowded 20) draft)" _ "row 22 22"] 2
  have "\<exists>k\<le>20. revision (row 22 22) = revision (prepare digest (crowded 20) draft) + int k"
    by blast
  ultimately show ?thesis by blast
qed

text \<open>
  C3 as the claim states it fails: in the race of twenty-two writers, writer 0
  has had twenty attempts rejected (its counter is 20) and does not give up; its
  twenty-first attempt persists the row, with number 22.
\<close>

theorem twenty_rejections_do_not_give_up:
  "(case snd (run digest (butlast race_schedule) (empty_db, race_writers)) ! 0 of
      Trying r attempt \<Rightarrow> attempt = 20 | _ \<Rightarrow> False)
   \<and> (case snd (run digest race_schedule (empty_db, race_writers)) ! 0 of
      Finished r \<Rightarrow> revision r = 22 | _ \<Rightarrow> False)"
  by code_simp

section \<open>Numbering under concurrent writers\<close>

lemma insort_key_snoc:
  "\<forall>y\<in>set acc. f y < f x \<Longrightarrow> insort_key f x acc = acc @ [x]"
  by (induction acc) auto

lemma foldr_insort_ascending:
  "sorted_wrt (<) (map f (acc @ xs)) \<Longrightarrow> foldr (insort_key f) (rev xs) acc = acc @ xs"
proof (induction xs arbitrary: acc)
  case Nil
  then show ?case by simp
next
  case (Cons x xs)
  from Cons.prems have b: "\<forall>y\<in>set acc. f y < f x"
    by (auto simp: sorted_wrt_append sorted_wrt_map)
  from Cons.prems have "sorted_wrt (<) (map f ((acc @ [x]) @ xs))" by simp
  from Cons.IH[OF this] show ?case by (simp add: insort_key_snoc[OF b])
qed

lemma sort_key_rev_ascending:
  "sorted_wrt (<) (map f xs) \<Longrightarrow> sort_key f (rev xs) = xs"
  using foldr_insort_ascending[of f "[]" xs] by (simp add: sort_key_def)

lemma sort_key_ascending:
  "sorted_wrt (<) (map f xs) \<Longrightarrow> sort_key f xs = xs"
  by (rule sort_key_id_if_sorted) (rule strict_sorted_imp_sorted)

lemma of_object_ids_ascending:
  "numbered d \<Longrightarrow> sorted_wrt (<) (map id_key (of_object d ct oid))"
  unfolding of_object_def numbered_def
  by (simp add: sorted_wrt_map sorted_wrt_filter)

lemma get_for_object_numbered:
  assumes "numbered d"
  shows "get_for_object d ct oid = rev (of_object d ct oid)"
  using sort_key_ascending[OF of_object_ids_ascending[OF assms, of ct oid]]
  by (simp add: get_for_object_def order_by_id_desc_def of_object_def)

lemma latest_numbered:
  assumes "numbered d"
  shows "latest (get_for_object d ct oid) =
     (if of_object d ct oid = [] then None else Some (last (of_object d ct oid)))"
proof -
  have "order_by_id_desc (rev (of_object d ct oid)) = rev (of_object d ct oid)"
    unfolding order_by_id_desc_def
    by (simp add: sort_key_rev_ascending[OF of_object_ids_ascending[OF assms]])
  then show ?thesis
    by (cases "of_object d ct oid" rule: rev_cases)
      (simp_all add: latest_def get_for_object_numbered[OF assms])
qed

lemma revision_mem_numbered:
  assumes "numbered d"
  shows "(\<exists>x\<in>set (of_object d ct oid). revision x = n)
     \<longleftrightarrow> (1 \<le> n \<and> n \<le> int (length (of_object d ct oid)))"
proof -
  from assms have eq: "map revision (of_object d ct oid) = map int [1..<Suc (length (of_object d ct oid))]"
    by (simp add: numbered_def)
  have "(\<exists>x\<in>set (of_object d ct oid). revision x = n) \<longleftrightarrow> n \<in> set (map revision (of_object d ct oid))"
    by auto
  also have "\<dots> \<longleftrightarrow> n \<in> int ` set [1..<Suc (length (of_object d ct oid))]" by (simp only: eq set_map)
  also have "\<dots> \<longleftrightarrow> (1 \<le> n \<and> n \<le> int (length (of_object d ct oid)))"
  proof
    assume "n \<in> int ` set [1..<Suc (length (of_object d ct oid))]"
    then show "1 \<le> n \<and> n \<le> int (length (of_object d ct oid))" by auto
  next
    assume a: "1 \<le> n \<and> n \<le> int (length (of_object d ct oid))"
    then have "nat n \<in> set [1..<Suc (length (of_object d ct oid))]" by auto
    moreover have "n = int (nat n)" using a by simp
    ultimately show "n \<in> int ` set [1..<Suc (length (of_object d ct oid))]" by (rule rev_image_eqI)
  qed
  finally show ?thesis .
qed

lemma conflict_numbered:
  assumes "numbered d" "rev_id r = None"
  shows "conflict (revisions d) r \<longleftrightarrow>
     (1 \<le> revision r \<and> revision r \<le> int (length (of_object d (content_type r) (object_id r))))"
proof -
  have "conflict (revisions d) r \<longleftrightarrow> (\<exists>x\<in>set (of_object d (content_type r) (object_id r)). revision x = revision r)"
    using assms by (auto simp: conflict_def list_ex_iff of_object_def numbered_def)
  then show ?thesis using revision_mem_numbered[OF assms(1)] by simp
qed

lemma prepare_ok:
  assumes "numbered d" "rev_id r = None"
  shows "writer_ok d (Trying (prepare h d r) 0)"
    and "revision (prepare h d r) = int (length (of_object d (content_type r) (object_id r))) + 1"
proof -
  let ?xs = "of_object d (content_type r) (object_id r)"
  from assms(1) have eq: "map revision ?xs = map int [1..<Suc (length ?xs)]"
    by (simp add: numbered_def)
  have l: "?xs \<noteq> [] \<Longrightarrow> revision (last ?xs) = int (length ?xs)"
  proof -
    assume ne: "?xs \<noteq> []"
    then have "revision (last ?xs) = last (map revision ?xs)" by (simp add: last_map)
    also have "\<dots> = last (map int [1..<Suc (length ?xs)])" by (simp only: eq)
    also have "\<dots> = int (length ?xs)" using ne by (cases ?xs) (simp_all add: last_map)
    finally show ?thesis .
  qed
  show 2: "revision (prepare h d r) = int (length ?xs) + 1"
    using assms l by (simp add: prepare_def Let_def latest_numbered)
  have "rev_id (prepare h d r) = None" "content_type (prepare h d r) = content_type r"
    "object_id (prepare h d r) = object_id r"
    using assms by (auto simp: prepare_def Let_def split: option.splits)
  then show "writer_ok d (Trying (prepare h d r) 0)" using 2 by simp
qed

lemma insert_numbered:
  assumes n: "numbered d" and i: "rev_id r = None"
    and s: "super_save d r = Inr (d', r')"
    and b: "1 \<le> revision r" "revision r \<le> int (length (of_object d (content_type r) (object_id r))) + 1"
  shows "numbered d'"
    and "length (of_object d ct oid) \<le> length (of_object d' ct oid)"
proof -
  let ?r' = "r\<lparr>rev_id := Some (next_id (revisions d))\<rparr>"
  from s i have d': "revisions d' = revisions d @ [?r']" and r': "r' = ?r'"
    and nc: "\<not> conflict (revisions d) r"
    by (auto simp: super_save_def Let_def split: if_splits)
  from nc b have rv: "revision r = int (length (of_object d (content_type r) (object_id r))) + 1"
    using conflict_numbered[OF n i] by linarith
  have o: "\<And>ct oid. of_object d' ct oid =
      (if same_object ct oid r then of_object d ct oid @ [?r'] else of_object d ct oid)"
    by (simp add: of_object_def d' same_object_def)
  show "length (of_object d ct oid) \<le> length (of_object d' ct oid)" by (simp add: o)
  have ids: "\<forall>x\<in>set (revisions d). id_key x < id_key ?r'"
    using id_key_le_fold_max[of _ "revisions d" 0] by (auto simp: id_key_def next_id_def less_Suc_eq_le)
  have 1: "sorted_wrt (<) (map id_key (revisions d'))"
    using n ids by (simp add: d' numbered_def sorted_wrt_append)
  have 2: "\<forall>x\<in>set (revisions d'). rev_id x \<noteq> None"
    using n by (auto simp: d' numbered_def)
  have 3: "map revision (of_object d' ct oid) = map int [1..<Suc (length (of_object d' ct oid))]" for ct oid
  proof (cases "same_object ct oid r")
    case True
    then have c: "ct = content_type r" "oid = object_id r" by (auto simp: same_object_def)
    from n have "map revision (of_object d ct oid) = map int [1..<Suc (length (of_object d ct oid))]"
      by (simp add: numbered_def)
    then show ?thesis using True rv by (simp add: o c)
  next
    case False
    then show ?thesis using n by (simp add: o numbered_def)
  qed
  from 1 2 3 show "numbered d'" by (simp add: numbered_def)
qed

lemma writer_ok_mono:
  assumes "writer_ok d w"
    and "\<And>ct oid. length (of_object d ct oid) \<le> length (of_object d' ct oid)"
  shows "writer_ok d' w"
proof (cases w)
  case (Trying r a)
  with assms(1) assms(2)[of "content_type r" "object_id r"] show ?thesis by simp
qed (use assms in simp_all)

lemma writer_step_ok:
  assumes "numbered d" "writer_ok d w" "writer_step h d w = (d', w')"
  shows "numbered d' \<and> writer_ok d' w' \<and> (\<forall>ct oid. length (of_object d ct oid) \<le> length (of_object d' ct oid))"
proof (cases w)
  case (Idle r)
  with assms show ?thesis using prepare_ok(1)[of d r h] by auto
next
  case (Trying r a)
  with assms(2) have i: "rev_id r = None" and b: "1 \<le> revision r"
    "revision r \<le> int (length (of_object d (content_type r) (object_id r))) + 1" by simp_all
  show ?thesis
  proof (cases "super_save d r")
    case (Inl e)
    then have c: "conflict (revisions d) r" by (simp add: super_save_Inl)
    then have "revision r + 1 \<le> int (length (of_object d (content_type r) (object_id r))) + 1"
      using conflict_numbered[OF assms(1) i] by simp
    with assms(1,3) Trying Inl i b show ?thesis
      by (auto simp: save_attempt_def Let_def split: if_splits)
  next
    case (Inr p)
    obtain d2 r2 where p: "p = (d2, r2)" by (cases p)
    with Inr assms(3) Trying have e: "d' = d2" "w' = Finished r2"
      by (auto simp: save_attempt_def)
    from insert_numbered[OF assms(1) i Inr[unfolded p] b] e show ?thesis by simp
  qed
next
  case (Finished r)
  with assms show ?thesis by auto
next
  case (Failed e)
  with assms show ?thesis by auto
qed

lemma sys_step_ok:
  assumes "sys_ok s"
  shows "sys_ok (sys_step h s i)"
proof (cases s)
  case (Pair d ws)
  show ?thesis
  proof (cases "i < length ws")
    case False
    with assms Pair show ?thesis by simp
  next
    case True
    obtain d' w' where st: "writer_step h d (ws ! i) = (d', w')" by (cases "writer_step h d (ws ! i)")
    from assms Pair True have n: "numbered d" and wi: "writer_ok d (ws ! i)"
      and all: "\<forall>w\<in>set ws. writer_ok d w"
      by (auto simp: sys_ok_def)
    from writer_step_ok[OF n wi st] have n': "numbered d'" and w': "writer_ok d' w'"
      and m: "\<And>ct oid. length (of_object d ct oid) \<le> length (of_object d' ct oid)" by auto
    have "\<forall>w\<in>set (ws[i := w']). writer_ok d' w"
    proof
      fix w assume "w \<in> set (ws[i := w'])"
      then have "w = w' \<or> w \<in> set ws" by (auto dest: set_update_subset_insert[THEN subsetD])
      then show "writer_ok d' w" using w' all writer_ok_mono[OF _ m] by auto
    qed
    with n' Pair True st show ?thesis by (simp add: sys_ok_def)
  qed
qed

lemma run_ok: "sys_ok s \<Longrightarrow> sys_ok (run h sched s)"
  unfolding run_def by (induction sched arbitrary: s) (simp_all add: sys_step_ok)

lemma numbers_numbered:
  assumes "numbered d"
  shows "numbers d ct oid = map int [1..<Suc (length (numbers d ct oid))]"
proof -
  have a: "numbers d ct oid = map revision (of_object d ct oid)"
    using sort_key_ascending[OF of_object_ids_ascending[OF assms, of ct oid]]
    by (simp add: numbers_def of_object_def)
  have b: "map revision (of_object d ct oid) = map int [1..<Suc (length (of_object d ct oid))]"
    using assms unfolding numbered_def by blast
  have c: "length (numbers d ct oid) = length (of_object d ct oid)"
    by (simp only: a length_map)
  show ?thesis by (simp only: c) (simp only: a b)
qed


lemma sorted_wrt_upto_int: "sorted_wrt (<) (map int [1..<Suc n])"
proof -
  have "sorted_wrt (\<lambda>x y. int x < int y) [1..<Suc n]"
    using sorted_wrt_upt[of 1 "Suc n"] by (simp only: of_nat_less_iff)
  then show ?thesis by (simp only: sorted_wrt_map)
qed

text \<open>
  C2. Any number of callers save new revisions at once, in any interleaving of
  their accesses to the store, starting from an empty table. Whatever the
  schedule, the numbers of every object reference, read in the order the rows
  were persisted, grow strictly, are pairwise distinct, and begin with 1.
\<close>

theorem concurrent_revision_numbers:
  assumes "revisions d0 = []"
    and "\<forall>w\<in>set ws. \<exists>r. w = Idle r \<and> rev_id r = None"
  shows "sorted_wrt (<) (numbers (fst (run h sched (d0, ws))) ct oid)
    \<and> distinct (numbers (fst (run h sched (d0, ws))) ct oid)
    \<and> (numbers (fst (run h sched (d0, ws))) ct oid \<noteq> []
         \<longrightarrow> hd (numbers (fst (run h sched (d0, ws))) ct oid) = 1)"
proof -
  let ?ns = "numbers (fst (run h sched (d0, ws))) ct oid"
  have "sys_ok (d0, ws)" using assms by (auto simp: sys_ok_def numbered_def of_object_def)
  then have "numbered (fst (run h sched (d0, ws)))" using run_ok[of "(d0, ws)" h sched] by (simp add: sys_ok_def)
  then have e: "?ns = map int [1..<Suc (length ?ns)]" by (rule numbers_numbered)
  have s: "sorted_wrt (<) ?ns" by (subst e) (rule sorted_wrt_upto_int)
  then have d: "distinct ?ns" by (simp add: strict_sorted_iff)
  have "hd ?ns = 1" if "?ns \<noteq> []"
  proof -
    from that have "1 < Suc (length ?ns)" by simp
    then have u: "[1..<Suc (length ?ns)] = 1 # [Suc 1..<Suc (length ?ns)]"
      by (rule upt_conv_Cons)
    have "hd (map int [1..<Suc (length ?ns)]) = 1" by (simp only: u list.map list.sel of_nat_1)
    with e show ?thesis by (simp only:)
  qed
  with s d show ?thesis by blast
qed

theorem concurrent_revision_numbers_witness:
  "numbers (fst (run digest [0, 1, 2, 1, 0, 2, 2, 0, 0]
      (empty_db, [Idle draft, Idle draft, Idle draft]))) ''Article'' 1 = [1, 2, 3]
   \<and> distinct (numbers (fst (run digest [0, 1, 2, 1, 0, 2, 2, 0, 0]
      (empty_db, [Idle draft, Idle draft, Idle draft]))) ''Article'' 1)"
proof -
  have 1: "revisions empty_db = []" by (simp add: empty_db_def)
  have 2: "\<forall>w\<in>set [Idle draft, Idle draft, Idle draft]. \<exists>r. w = Idle r \<and> rev_id r = None"
    by (simp add: draft_def)
  have 3: "numbers (fst (run digest [0, 1, 2, 1, 0, 2, 2, 0, 0]
      (empty_db, [Idle draft, Idle draft, Idle draft]))) ''Article'' 1 = [1, 2, 3]"
    by code_simp
  from concurrent_revision_numbers[OF 1 2, of digest "[0, 1, 2, 1, 0, 2, 2, 0, 0]" "''Article''" 1] 3
  show ?thesis by blast
qed

section \<open>The reverse diff\<close>

lemma common_prefix_take:
  "take (length (common_prefix a b)) a = common_prefix a b"
  "take (length (common_prefix a b)) b = common_prefix a b"
  by (induction a b rule: common_prefix.induct) auto

lemma common_prefix_split:
  "a = common_prefix a b @ drop (length (common_prefix a b)) a"
  "b = common_prefix a b @ drop (length (common_prefix a b)) b"
  by (metis append_take_drop_id common_prefix_take(1)) (metis append_take_drop_id common_prefix_take(2))

lemma common_suffix_split:
  "a = take (length a - length (common_suffix a b)) a @ common_suffix a b"
  "b = take (length b - length (common_suffix a b)) b @ common_suffix a b"
proof -
  have "rev a = common_prefix (rev a) (rev b) @ drop (length (common_prefix (rev a) (rev b))) (rev a)"
    by (rule common_prefix_split(1))
  then have "a = rev (drop (length (common_prefix (rev a) (rev b))) (rev a)) @ common_suffix a b"
    unfolding common_suffix_def by (metis rev_append rev_rev_ident)
  then show "a = take (length a - length (common_suffix a b)) a @ common_suffix a b"
    by (simp add: common_suffix_def rev_drop)
  have "rev b = common_prefix (rev a) (rev b) @ drop (length (common_prefix (rev a) (rev b))) (rev b)"
    by (rule common_prefix_split(2))
  then have "b = rev (drop (length (common_prefix (rev a) (rev b))) (rev b)) @ common_suffix a b"
    unfolding common_suffix_def by (metis rev_append rev_rev_ident)
  then show "b = take (length b - length (common_suffix a b)) b @ common_suffix a b"
    by (simp add: common_suffix_def rev_drop)
qed

lemma apply_ops_script:
  "apply_ops [Equal p, Delete x, Insert y, Equal s] (p @ x @ s) = Some (p @ y @ s)"
  by simp

lemma apply_ops_diff: "apply_ops (diff a b) a = Some b"
proof -
  define p where "p = common_prefix a b"
  define a1 where "a1 = drop (length p) a"
  define b1 where "b1 = drop (length p) b"
  define s where "s = common_suffix a1 b1"
  define x where "x = take (length a1 - length s) a1"
  define y where "y = take (length b1 - length s) b1"
  have d: "diff a b = [Equal p, Delete x, Insert y, Equal s]"
    by (simp add: diff_def Let_def p_def a1_def b1_def s_def x_def y_def)
  have "a = p @ a1" "b = p @ b1"
    unfolding p_def a1_def b1_def by (rule common_prefix_split)+
  moreover have "a1 = x @ s" "b1 = y @ s"
    unfolding x_def y_def s_def by (rule common_suffix_split)+
  ultimately have ab: "a = p @ x @ s" "b = p @ y @ s" by simp_all
  have "apply_ops (diff a b) a = apply_ops [Equal p, Delete x, Insert y, Equal s] a"
    by (simp only: d)
  also have "\<dots> = Some b"
    using apply_ops_script[of p x y s] ab by metis
  finally show ?thesis .
qed

lemma apply_patch_diff: "apply_patch (diff a b) a = b"
  by (simp add: apply_patch_def apply_ops_diff)

lemma dec1_enc: "dec1 (enc s @ t) = Some (s, t)"
proof -
  have "takeWhile (\<lambda>c. c = CHR ''1'') (replicate (length s) CHR ''1'' @ CHR ''0'' # s @ t)
      = replicate (length s) CHR ''1''"
    by (simp add: takeWhile_append2 takeWhile_tail)
  then show ?thesis by (simp add: dec1_def enc_def)
qed

lemma enc_not_Nil: "enc s @ t \<noteq> []"
  by (simp add: enc_def)

lemma dec_list_enc: "dec_list (enc_list xs) = Some xs"
proof (induction xs)
  case Nil
  show ?case by (subst dec_list.simps) (simp add: enc_list_def)
next
  case (Cons x xs)
  have "enc_list (x # xs) = enc x @ enc_list xs" by (simp add: enc_list_def)
  then show ?case using Cons enc_not_Nil[of x "enc_list xs"]
    by (subst dec_list.simps) (simp add: dec1_enc)
qed

lemma text_op_op_text: "text_op (op_text x) = Some x"
  by (cases x) (simp_all add: text_op_def)

lemma text_ops_op_text: "text_ops (map op_text ops) = Some ops"
  by (induction ops) (simp_all add: text_op_op_text)

lemma patch_of_text_toText: "patch_of_text (patch_toText ops) = Inr ops"
  by (simp add: patch_of_text_def patch_toText_def dec_list_enc text_ops_op_text)

lemma pairs_flat: "pairs (concat (map (\<lambda>kd. [fst kd, snd kd]) blocks)) = blocks"
  by (induction blocks) simp_all

lemma unpack_pack: "unpack (pack blocks) = blocks"
  by (simp add: unpack_def pack_def dec_list_enc pairs_flat)

lemma split_on_no_sep: "c \<notin> set xs \<Longrightarrow> split_on c xs = [xs]"
  by (induction xs) auto

lemma split_on_append:
  "c \<notin> set xs \<Longrightarrow> split_on c (xs @ c # ys) = xs # split_on c ys"
  by (induction xs) auto

lemma split_field_key:
  "CHR ''.'' \<notin> set (model_name m) \<Longrightarrow> CHR ''.'' \<notin> set f
     \<Longrightarrow> split_on CHR ''.'' (field_key m f) = [model_name m, f]"
  by (simp add: field_key_def split_on_append split_on_no_sep)

lemma map_of_dict_set: "map_of (dict_set d k v) = (map_of d)(k \<mapsto> v)"
  by (induction d) (auto simp: fun_upd_twist)

lemma request_info_delta: "map_of (request_info req info) ''delta'' = map_of info ''delta''"
  by (cases req) (simp_all add: request_info_def Let_def map_of_dict_set)

lemma pre_save_result:
  "pre_save env d req instance
     = Inr (instance\<lparr>revision_info := Some (dict_set
         (request_info req
           (dict_set (case revision_info instance of None \<Rightarrow> [] | Some i \<Rightarrow> i) ''delta''
              (PStr (obj_diff env instance (original_of d instance)))))
         ''editor'' PNone)\<rparr>)"
  by (simp add: pre_save_def Let_def hasattr_dict_def dict_attributes_def)

lemma pre_save_info:
  "\<exists>info. pre_save env d req instance = Inr (instance\<lparr>revision_info := Some info\<rparr>)
     \<and> map_of info ''delta'' = Some (PStr (obj_diff env instance (original_of d instance)))
     \<and> map_of info ''editor'' = Some PNone"
  unfolding pre_save_result
  by (rule exI, rule conjI, rule refl) (simp add: map_of_dict_set request_info_delta)


section \<open>Saving a tracked entity\<close>

lemma super_save_insert:
  assumes "rev_id r = None" "super_save d r = Inr (d', r')"
  shows "revisions d' = revisions d @ [r']" "entities d' = entities d"
    "r' = r\<lparr>rev_id := Some (next_id (revisions d))\<rparr>"
  using assms by (auto simp: super_save_def Let_def split: if_splits)

lemma prepare_fields:
  "rev_id (prepare h d r) = rev_id r" "delta (prepare h d r) = delta r"
  "content_type (prepare h d r) = content_type r" "object_id (prepare h d r) = object_id r"
  "reverted (prepare h d r) = reverted r" "comment (prepare h d r) = comment r"
  "editor (prepare h d r) = editor r" "editor_ip (prepare h d r) = editor_ip r"
  by (auto simp: prepare_def Let_def split: option.splits)

lemma bump_fields:
  "rev_id (bump r k) = rev_id r" "delta (bump r k) = delta r"
  "content_type (bump r k) = content_type r" "object_id (bump r k) = object_id r"
  "reverted (bump r k) = reverted r" "comment (bump r k) = comment r"
  "editor (bump r k) = editor r" "editor_ip (bump r k) = editor_ip r"
  by (simp_all add: bump_def)

lemma Revision_save_new:
  assumes "rev_id r = None" "Revision_save h d r = (d', Inr r')"
  shows "revisions d' = revisions d @ [r']" "entities d' = entities d"
    "delta r' = delta r" "content_type r' = content_type r" "object_id r' = object_id r"
    "comment r' = comment r" "editor r' = editor r" "editor_ip r' = editor_ip r"
    "reverted r' = reverted r" "rev_id r' = Some (next_id (revisions d))"
proof -
  from assms(2) obtain k where k: "super_save d (bump (prepare h d r) k) = Inr (d', r')"
    unfolding Revision_save_def by (blast dest: save_loop_Inr)
  have n: "rev_id (bump (prepare h d r) k) = None" using assms(1) by (simp add: bump_fields prepare_fields)
  from super_save_insert[OF n k]
  show "revisions d' = revisions d @ [r']" "entities d' = entities d"
    "delta r' = delta r" "content_type r' = content_type r" "object_id r' = object_id r"
    "comment r' = comment r" "editor r' = editor r" "editor_ip r' = editor_ip r"
    "reverted r' = reverted r" "rev_id r' = Some (next_id (revisions d))"
    by (simp_all add: bump_fields prepare_fields)
qed

lemma Revision_save_Inl: "Revision_save h d r = (d', Inl e) \<Longrightarrow> d' = d"
proof -
  have "save_loop d r a = (d', Inl e) \<Longrightarrow> d' = d" for r a
  proof (induction d r a rule: save_loop.induct)
    case (1 d r a)
    from 1(2) show ?case
      by (subst (asm) save_loop.simps) (auto split: outcome.splits dest: 1(1))
  qed
  then show "Revision_save h d r = (d', Inl e) \<Longrightarrow> d' = d" by (simp add: Revision_save_def)
qed

lemma dict_set_not_Nil: "dict_set d k v \<noteq> []"
  by (cases d) (auto split: if_splits)

lemma request_info_other:
  "k \<noteq> ''editor'' \<Longrightarrow> k \<noteq> ''editor_ip'' \<Longrightarrow> map_of (request_info req info) k = map_of info k"
  by (cases req) (simp_all add: request_info_def Let_def map_of_dict_set)

lemma pre_save_keeps_id:
  "id_attr (dict_set (request_info req (dict_set info ''delta'' v)) ''editor'' w) = id_attr info"
proof -
  let ?i = "dict_set (request_info req (dict_set info ''delta'' v)) ''editor'' w"
  have "map_of ?i ''pk'' = map_of info ''pk''" "map_of ?i ''id'' = map_of info ''id''"
    by (simp_all add: map_of_dict_set request_info_other)
  then have "attr ?i ''id'' PNone = attr info ''id'' PNone" "map_of ?i ''pk'' = map_of info ''pk''"
    by (simp_all add: attr_def)
  then show ?thesis unfolding id_attr_def by (simp only:)
qed

lemma Revision_init_Inr: "Revision_init info = Inr kw \<Longrightarrow> kw = info"
  by (auto simp: Revision_init_def Let_def split: option.splits if_splits)

lemma post_save_Inr:
  assumes "post_save env d obj1 = (d', Inr obj)" "revision_info obj1 = Some info" "info \<noteq> []"
  shows "obj = obj1"
    "\<exists>r. save_new env d info (model_name (cls obj1)) (pk obj1) = (d', Inr r)"
proof -
  from assms have a: "(case Revision_init info of
       Inl e \<Rightarrow> (d, Inl e)
     | Inr kw \<Rightarrow>
         (case save_new env d kw (model_name (cls obj1)) (pk obj1) of
            (d', Inl e) \<Rightarrow> (d', Inl e)
          | (d', Inr r) \<Rightarrow> (d', Inr obj1))) = (d', Inr obj)"
    by (simp add: post_save_def)
  then obtain kw where kw: "Revision_init info = Inr kw"
    by (cases "Revision_init info") auto
  then have i: "kw = info" by (rule Revision_init_Inr)
  obtain d2 res where s: "save_new env d info (model_name (cls obj1)) (pk obj1) = (d2, res)"
    by (cases "save_new env d info (model_name (cls obj1)) (pk obj1)")
  from a kw i s show "obj = obj1" by (cases res) auto
  from a kw i s show "\<exists>r. save_new env d info (model_name (cls obj1)) (pk obj1) = (d', Inr r)"
    by (cases res) auto
qed

lemma save_new_insert:
  assumes "id_attr kw = PNone" and "save_new env d kw ct k = (d', Inr r)"
  shows "revisions d' = revisions d @ [r]" "entities d' = entities d"
    "k = Some (object_id r)" "content_type r = ct"
    "delta r = force_unicode (attr kw ''delta'' (PStr []))"
    "rev_id r = Some (next_id (revisions d))"
proof -
  from assms obtain r0 where c: "columns env kw ct k = Inr r0"
    and n: "\<not> null_column kw k"
    and s: "Revision_save (sha1_hexdigest env) d r0 = (d', Inr r)"
    by (auto simp: save_new_def split: sum.splits if_splits)
  from c assms(1) have f: "rev_id r0 = None" "content_type r0 = ct"
    "delta r0 = force_unicode (attr kw ''delta'' (PStr []))"
    "object_id r0 = (case k of None \<Rightarrow> 0 | Some j \<Rightarrow> j)"
    by (auto simp: columns_def split: sum.splits if_splits)
  from n obtain j where j: "k = Some j" by (auto simp: null_column_def)
  note new = Revision_save_new[OF f(1) s]
  show "revisions d' = revisions d @ [r]" by (rule new(1))
  show "entities d' = entities d" by (rule new(2))
  show "k = Some (object_id r)" using new(5) f(4) j by simp
  show "content_type r = ct" using new(4) f(2) by simp
  show "delta r = force_unicode (attr kw ''delta'' (PStr []))" using new(3) f(3) by simp
  show "rev_id r = Some (next_id (revisions d))" by (rule new(10))
qed

lemma entity_save_insert:
  assumes "entity_save env d req instance = (d', Inr obj)"
    and "id_attr (case revision_info instance of None \<Rightarrow> [] | Some i \<Rightarrow> i) = PNone"
  shows "\<exists>r. revisions d' = revisions d @ [r] \<and> rev_id r = Some (next_id (revisions d))
      \<and> content_type r = model_name (cls instance) \<and> pk obj = Some (object_id r)
      \<and> delta r = obj_diff env instance (original_of d instance)"
    "getattr obj = getattr instance" "cls obj = cls instance"
    "pk instance \<noteq> None \<Longrightarrow> pk obj = pk instance"
    "\<exists>k. pk obj = Some k
       \<and> entities d' = put_row (entities d) (model_name (cls instance), k) (getattr instance)"
proof -
  define info where "info = dict_set (request_info req
      (dict_set (case revision_info instance of None \<Rightarrow> [] | Some i \<Rightarrow> i) ''delta''
         (PStr (obj_diff env instance (original_of d instance))))) ''editor'' PNone"
  have p: "pre_save env d req instance = Inr (instance\<lparr>revision_info := Some info\<rparr>)"
    unfolding info_def by (rule pre_save_result)
  have i: "attr info ''delta'' (PStr []) = PStr (obj_diff env instance (original_of d instance))"
    unfolding info_def attr_def by (simp add: map_of_dict_set request_info_delta)
  have ne: "info \<noteq> []" unfolding info_def by (rule dict_set_not_Nil)
  have noid: "id_attr info = PNone" unfolding info_def pre_save_keeps_id by (rule assms(2))
  obtain d1 obj1 where w: "write_entity d (instance\<lparr>revision_info := Some info\<rparr>) = (d1, obj1)"
    by (cases "write_entity d (instance\<lparr>revision_info := Some info\<rparr>)")
  then have w': "revisions d1 = revisions d" "revision_info obj1 = Some info"
    "cls obj1 = cls instance" "getattr obj1 = getattr instance"
    "pk instance \<noteq> None \<Longrightarrow> pk obj1 = pk instance"
    "\<exists>k. pk obj1 = Some k
       \<and> entities d1 = put_row (entities d) (model_name (cls instance), k) (getattr instance)"
    by (auto simp: write_entity_def Let_def)
  from assms(1) p w have ps: "post_save env d1 obj1 = (d', Inr obj)"
    by (simp add: entity_save_def)
  from post_save_Inr[OF ps w'(2) ne] obtain r where o: "obj = obj1"
    and s: "save_new env d1 info (model_name (cls obj1)) (pk obj1) = (d', Inr r)"
    by blast
  note new = save_new_insert[OF noid s]
  show "\<exists>r. revisions d' = revisions d @ [r] \<and> rev_id r = Some (next_id (revisions d))
      \<and> content_type r = model_name (cls instance) \<and> pk obj = Some (object_id r)
      \<and> delta r = obj_diff env instance (original_of d instance)"
    using new i w' o by auto
  show "getattr obj = getattr instance" using o w'(4) by simp
  show "cls obj = cls instance" using o w'(3) by simp
  show "pk instance \<noteq> None \<Longrightarrow> pk obj = pk instance" using o w'(5) by simp
  show "\<exists>k. pk obj = Some k
       \<and> entities d' = put_row (entities d) (model_name (cls instance), k) (getattr instance)"
    using o w'(6) new(2) by auto
qed

text \<open>
  C9, as the code has it. Every successful save of a tracked entity whose
  \<open>revision_info\<close> passes no \<open>id\<close> (and no \<open>pk\<close>) to the Revision,
  as in every save the sources make, creates exactly one Revision, whether or
  not a tracked field changed: the table of revisions grows by one row, which
  belongs to the saved entity and holds the delta between the instance and the
  stored original.
\<close>

theorem entity_save_creates_one_revision:
  assumes "entity_save env d req instance = (d', Inr obj)"
    and "id_attr (case revision_info instance of None \<Rightarrow> [] | Some i \<Rightarrow> i) = PNone"
  shows "\<exists>r. revisions d' = revisions d @ [r]
      \<and> content_type r = model_name (cls instance) \<and> pk obj = Some (object_id r)
      \<and> delta r = obj_diff env instance (original_of d instance)"
  using entity_save_insert(1)[OF assms] by blast

theorem entity_save_creates_one_revision_witness:
  "\<exists>r. revisions (fst (entity_save shop history None (article_with ''D'')))
        = revisions history @ [r]
      \<and> content_type r = ''Article''"
proof -
  have "\<not> isl (snd (entity_save shop history None (article_with ''D'')))" by code_simp
  then have 1: "entity_save shop history None (article_with ''D'')
      = (fst (entity_save shop history None (article_with ''D'')),
         Inr (projr (snd (entity_save shop history None (article_with ''D'')))))"
    by (metis prod.collapse sum.collapse(2))
  have 2: "id_attr (case revision_info (article_with ''D'') of None \<Rightarrow> [] | Some i \<Rightarrow> i) = PNone"
    by code_simp
  from entity_save_creates_one_revision[OF 1 2] show ?thesis
    by (auto simp: article_with_def Article_def)
qed

text \<open>
  C9 as the claim states it fails: article 1 is stored with the title C and is
  saved again with the same values of its tracked fields; a fourth Revision is
  created.
\<close>

theorem unchanged_save_creates_revision:
  "list_all (\<lambda>f. getattr (article_with ''C'') f
                  = getattr (original_of history (article_with ''C'')) f)
     (registry Article)
   \<and> map revision (revisions history) = [1, 2, 3]
   \<and> map revision (revisions (fst (entity_save shop history None (article_with ''C''))))
       = [1, 2, 3, 4]"
  by code_simp

text \<open>
  A save whose \<open>revision_info\<close> names a stored Revision by its \<open>id\<close>
  and gives a \<open>revision\<close> writes over that row and adds none: here the
  row with id 3 of article 1 is written again as revision 7.
\<close>

lemma save_with_id_updates_row:
  "map (\<lambda>r. (rev_id r, revision r))
     (revisions (fst (entity_save shop history None
        ((article_with ''D'')\<lparr>revision_info := Some [(''id'', PInt 3), (''revision'', PInt 7)]\<rparr>))))
   = [(Some 1, 1), (Some 2, 2), (Some 3, 7)]
   \<and> \<not> isl (snd (entity_save shop history None
        ((article_with ''D'')\<lparr>revision_info := Some [(''id'', PInt 3), (''revision'', PInt 7)]\<rparr>)))"
  by code_simp

section \<open>Reverting\<close>

lemma super_save_update:
  assumes "rev_id r = Some i" "super_save d r = Inr (d', r')"
  shows "r' = r"
  using assms by (auto simp: super_save_def split: if_splits)

lemma Revision_save_rows:
  assumes "Revision_save h d r = (d', Inr r')"
  shows "r' \<in> set (revisions d')" "rev_id r' \<noteq> None" "reverted r' = reverted r"
    "entities d' = entities d"
    "\<forall>x\<in>set (revisions d'). rev_id x = rev_id r' \<longrightarrow> x = r'"
    "\<forall>x\<in>set (revisions d'). x = r' \<or> x \<in> set (revisions d)"
    "rev_id r \<noteq> None \<longrightarrow> rev_id r' = rev_id r"
    "\<forall>x\<in>set (revisions d). \<exists>y\<in>set (revisions d'). rev_id y = rev_id x"
    "rev_id r = None \<longrightarrow> (\<forall>x\<in>set (revisions d). rev_id x \<noteq> rev_id r')"
proof -
  from assms obtain k where k: "super_save d (bump (prepare h d r) k) = Inr (d', r')"
    unfolding Revision_save_def by (blast dest: save_loop_Inr)
  let ?r = "bump (prepare h d r) k"
  have f: "rev_id ?r = rev_id r" "reverted ?r = reverted r"
    by (simp_all add: bump_fields prepare_fields)
  from super_save_Inr[OF k] f
  show "r' \<in> set (revisions d')" "rev_id r' \<noteq> None" "reverted r' = reverted r"
    "entities d' = entities d"
    "\<forall>x\<in>set (revisions d'). rev_id x = rev_id r' \<longrightarrow> x = r'"
    "\<forall>x\<in>set (revisions d'). x = r' \<or> x \<in> set (revisions d)"
    by simp_all
  show "rev_id r \<noteq> None \<longrightarrow> rev_id r' = rev_id r"
  proof
    assume "rev_id r \<noteq> None"
    then obtain i where "rev_id ?r = Some i" using f(1) by auto
    from super_save_update[OF this k] f(1) show "rev_id r' = rev_id r" by simp
  qed
  show "\<forall>x\<in>set (revisions d). \<exists>y\<in>set (revisions d'). rev_id y = rev_id x"
  proof
    fix x assume "x \<in> set (revisions d)"
    then have "rev_id x \<in> rev_id ` set (revisions d')" using super_save_ids[OF k] by blast
    then show "\<exists>y\<in>set (revisions d'). rev_id y = rev_id x" by (metis imageE)
  qed
  show "rev_id r = None \<longrightarrow> (\<forall>x\<in>set (revisions d). rev_id x \<noteq> rev_id r')"
  proof
    assume "rev_id r = None"
    then have n: "rev_id ?r = None" using f(1) by simp
    from super_save_insert(3)[OF n k] have "rev_id r' = Some (next_id (revisions d))" by simp
    then show "\<forall>x\<in>set (revisions d). rev_id x \<noteq> rev_id r'"
      using next_id_fresh[of _ "revisions d"] by simp
  qed
qed

lemma flaggedI:
  assumes "y0 \<in> set (revisions d)" "rev_id y0 = rev_id x"
    and "\<And>y. y \<in> set (revisions d) \<Longrightarrow> rev_id y = rev_id x \<Longrightarrow> reverted y"
  shows "flagged d x"
  unfolding flagged_def list_ex_iff list_all_iff using assms by blast

lemma flaggedD:
  assumes "flagged d x"
  shows "\<exists>y\<in>set (revisions d). rev_id y = rev_id x"
    and "\<And>y. y \<in> set (revisions d) \<Longrightarrow> rev_id y = rev_id x \<Longrightarrow> reverted y"
  using assms unfolding flagged_def list_ex_iff list_all_iff by blast+

lemma save_sets_flag:
  assumes "Revision_save h d r = (d', Inr r')" "reverted r" "rev_id r \<noteq> None"
  shows "flagged d' r"
proof (rule flaggedI)
  note s = Revision_save_rows[OF assms(1)]
  show "r' \<in> set (revisions d')" by (rule s(1))
  show id: "rev_id r' = rev_id r" using s(7) assms(3) by blast
  fix y assume "y \<in> set (revisions d')" "rev_id y = rev_id r"
  with s(5) id have "y = r'" by metis
  with s(3) assms(2) show "reverted y" by simp
qed

lemma save_keeps_flag:
  assumes "Revision_save h d r = (d', Inr r')" "reverted r \<or> rev_id r = None" "flagged d x"
  shows "flagged d' x"
proof -
  note s = Revision_save_rows[OF assms(1)]
  from flaggedD(1)[OF assms(3)] obtain y0 where y0: "y0 \<in> set (revisions d)" "rev_id y0 = rev_id x"
    by blast
  from s(8) y0(1) obtain y1 where y1: "y1 \<in> set (revisions d')" "rev_id y1 = rev_id y0" by blast
  show ?thesis
  proof (rule flaggedI[OF y1(1)])
    show "rev_id y1 = rev_id x" using y1(2) y0(2) by simp
    fix y assume y: "y \<in> set (revisions d')" "rev_id y = rev_id x"
    show "reverted y"
    proof (cases "y = r'")
      case True
      show ?thesis
      proof (cases "rev_id r")
        case None
        with s(9) y0(1) have "rev_id y0 \<noteq> rev_id r'" by blast
        with y0(2) y(2) True show ?thesis by simp
      next
        case (Some i)
        with assms(2) s(3) True show ?thesis by simp
      qed
    next
      case False
      with s(6) y(1) have "y \<in> set (revisions d)" by blast
      with flaggedD(2)[OF assms(3)] y(2) show ?thesis by blast
    qed
  qed
qed

lemma reapply_changes_Inr:
  assumes "reapply_changes env d obj cs = (d', Inr obj')"
    and "\<forall>x\<in>set cs. rev_id x \<noteq> None"
  shows "replay env obj cs = Inr obj' \<and> entities d' = entities d
    \<and> (\<forall>x\<in>set cs. flagged d' x) \<and> (\<forall>x. flagged d x \<longrightarrow> flagged d' x)"
  using assms
proof (induction cs arbitrary: d obj)
  case Nil
  then show ?case by simp
next
  case (Cons c cs)
  from Cons.prems(1) obtain obj1 where
    a: "reapply_diffs env obj (diff_split_by_fields env (delta c)) = Inr obj1"
    by (cases "reapply_diffs env obj (diff_split_by_fields env (delta c))") auto
  obtain d1 res where s0: "Revision_save (sha1_hexdigest env) d (c\<lparr>reverted := True\<rparr>) = (d1, res)"
    by (cases "Revision_save (sha1_hexdigest env) d (c\<lparr>reverted := True\<rparr>)")
  with Cons.prems(1) a obtain r1 where res: "res = Inr r1"
    by (cases res) auto
  from Cons.prems(1) a s0 res have r: "reapply_changes env d1 obj1 cs = (d', Inr obj')" by simp
  note s = s0[unfolded res]
  from Cons.prems(2) have ids: "\<forall>x\<in>set cs. rev_id x \<noteq> None" and idc: "rev_id c \<noteq> None" by simp_all
  from Cons.IH[OF r ids] have ih1: "replay env obj1 cs = Inr obj'"
    and ih2: "entities d' = entities d1"
    and ih3: "\<forall>x\<in>set cs. flagged d' x" and ih4: "\<forall>x. flagged d1 x \<longrightarrow> flagged d' x" by blast+
  have "flagged d1 (c\<lparr>reverted := True\<rparr>)"
    using save_sets_flag[OF s] idc by simp
  then have fc: "flagged d1 c" by (simp add: flagged_def)
  have keep: "flagged d x \<Longrightarrow> flagged d1 x" for x
    using save_keeps_flag[OF s] by simp
  have 1: "replay env obj (c # cs) = Inr obj'" using a ih1 by simp
  have 2: "entities d' = entities d" using ih2 Revision_save_rows(4)[OF s] by simp
  have 3: "\<forall>x\<in>set (c # cs). flagged d' x" using ih3 ih4 fc by auto
  have 4: "\<forall>x. flagged d x \<longrightarrow> flagged d' x" using ih4 keep by blast
  from 1 2 3 4 show ?case by blast
qed


lemma reapply_changes_append:
  "reapply_changes env d obj (xs @ ys) =
     (case reapply_changes env d obj xs of
        (d1, Inl e) \<Rightarrow> (d1, Inl e)
      | (d1, Inr obj1) \<Rightarrow> reapply_changes env d1 obj1 ys)"
  by (induction xs arbitrary: d obj) (auto split: sum.splits prod.splits)

lemma Revision_save_ids:
  assumes "Revision_save h d r = (d', Inr r')" "rev_id r \<noteq> None"
    "rev_id r \<in> rev_id ` set (revisions d)"
  shows "map rev_id (revisions d') = map rev_id (revisions d)"
proof -
  from assms(1) obtain k where k: "super_save d (bump (prepare h d r) k) = Inr (d', r')"
    unfolding Revision_save_def by (blast dest: save_loop_Inr)
  let ?r = "bump (prepare h d r) k"
  from assms(2) obtain i where i: "rev_id ?r = Some i" "rev_id r = Some i"
    by (auto simp: bump_fields prepare_fields)
  from assms(3) i(2) have ex: "list_ex (\<lambda>x. rev_id x = Some i) (revisions d)"
    by (auto simp: list_ex_iff)
  with k i(1) have d': "revisions d' = map (\<lambda>x. if rev_id x = Some i then ?r else x) (revisions d)"
    by (auto simp: super_save_def split: if_splits)
  show ?thesis unfolding d' using i(1) by (induction "revisions d") auto
qed

lemma reapply_changes_ids:
  assumes "reapply_changes env d obj cs = (d', Inr obj')"
    and "\<forall>x\<in>set cs. rev_id x \<noteq> None \<and> rev_id x \<in> rev_id ` set (revisions d)"
  shows "map rev_id (revisions d') = map rev_id (revisions d)"
  using assms
proof (induction cs arbitrary: d obj)
  case Nil
  then show ?case by simp
next
  case (Cons c cs)
  from Cons.prems(1) obtain obj1 where
    a: "reapply_diffs env obj (diff_split_by_fields env (delta c)) = Inr obj1"
    by (cases "reapply_diffs env obj (diff_split_by_fields env (delta c))") auto
  obtain d1 res where s0: "Revision_save (sha1_hexdigest env) d (c\<lparr>reverted := True\<rparr>) = (d1, res)"
    by (cases "Revision_save (sha1_hexdigest env) d (c\<lparr>reverted := True\<rparr>)")
  with Cons.prems(1) a obtain r1 where res: "res = Inr r1"
    by (cases res) auto
  from Cons.prems(1) a s0 res have r: "reapply_changes env d1 obj1 cs = (d', Inr obj')" by simp
  from Cons.prems(2) have "rev_id (c\<lparr>reverted := True\<rparr>) \<noteq> None"
    "rev_id (c\<lparr>reverted := True\<rparr>) \<in> rev_id ` set (revisions d)" by simp_all
  from Revision_save_ids[OF s0[unfolded res] this]
  have m: "map rev_id (revisions d1) = map rev_id (revisions d)" .
  then have "rev_id ` set (revisions d1) = rev_id ` set (revisions d)" by (metis set_map)
  with Cons.prems(2) have "\<forall>x\<in>set cs. rev_id x \<noteq> None \<and> rev_id x \<in> rev_id ` set (revisions d1)"
    by simp
  from Cons.IH[OF r this] m show ?case by simp
qed

lemma set_next_changes:
  "set (next_changes d self) =
     {x \<in> set (revisions d). same_object (content_type self) (object_id self) x
        \<and> revision self < revision x}"
  by (auto simp: next_changes_def get_for_object_def order_by_id_desc_def)

lemma next_changes_descending: "sorted (rev (map revision (next_changes d self)))"
  by (simp add: next_changes_def rev_map)

lemma reapply_field_cls:
  "reapply_field env obj kd = Inr obj' \<Longrightarrow> cls obj' = cls obj \<and> pk obj' = pk obj"
  by (auto simp: reapply_field_def setattr_def Let_def split: list.splits if_splits sum.splits)

lemma reapply_diffs_cls:
  "reapply_diffs env obj kds = Inr obj' \<Longrightarrow> cls obj' = cls obj \<and> pk obj' = pk obj"
proof (induction kds arbitrary: obj)
  case Nil
  then show ?case by simp
next
  case (Cons kd kds)
  then show ?case by (auto split: sum.splits dest!: reapply_field_cls)
qed

lemma replay_cls:
  "replay env obj cs = Inr obj' \<Longrightarrow> cls obj' = cls obj \<and> pk obj' = pk obj"
proof (induction cs arbitrary: obj)
  case Nil
  then show ?case by simp
next
  case (Cons c cs)
  then show ?case by (auto split: sum.splits dest!: reapply_diffs_cls)
qed

lemma map_of_put_row: "map_of (put_row es k v) = (map_of es)(k \<mapsto> v)"
  by (induction es) (auto simp: fun_upd_twist)

lemma content_object_Some:
  assumes "content_object env d r = Some obj"
  shows "model_name (cls obj) = content_type r" "pk obj = Some (object_id r)"
    "map_of (entities d) (content_type r, object_id r) = Some (getattr obj)"
  using assms
  by (auto simp: content_object_def load_def split: option.splits dest: find_Some_iff[THEN iffD1])

lemma split_on_parts: "\<forall>p\<in>set (split_on c s). c \<notin> set p"
  by (induction s) (auto split: list.splits)

lemma split_on_not_Nil: "split_on c s \<noteq> []"
  by (induction s) (auto split: list.splits)

lemma split_on_one: "split_on c s = [b] \<Longrightarrow> s = b"
proof (induction s arbitrary: b)
  case Nil
  then show ?case by simp
next
  case (Cons y ys)
  then show ?case using split_on_not_Nil[of c ys] by (auto split: if_splits list.splits)
qed

lemma split_on_two:
  assumes "split_on c s = [a, b]"
  shows "s = a @ c # b"
  using assms
proof (induction s arbitrary: a)
  case Nil
  then show ?case by simp
next
  case (Cons x xs)
  show ?case
  proof (cases "x = c")
    case True
    with Cons.prems have a: "a = []" and s: "split_on c xs = [b]" by simp_all
    have "xs = b" using s by (rule split_on_one)
    then show ?thesis using a True by simp
  next
    case False
    with Cons.prems obtain p where p: "split_on c xs = [p, b]" "a = x # p"
      by (auto split: list.splits)
    from Cons.IH[OF p(1)] p(2) show ?thesis by simp
  qed
qed

lemma first_sep_unique:
  assumes "a @ c # b = x @ c # y" "c \<notin> set a" "c \<notin> set x"
  shows "a = x \<and> b = y"
  using assms
proof (induction a arbitrary: x)
  case Nil
  then show ?case by (cases x) auto
next
  case (Cons z zs)
  then show ?case by (cases x) auto
qed

lemma split_on_key:
  assumes "split_on c k = [x, y]"
  shows "k = a @ c # b \<longleftrightarrow> a = x \<and> b = y"
proof
  assume k: "k = a @ c # b"
  have xy: "k = x @ c # y" by (rule split_on_two[OF assms])
  have nx: "c \<notin> set x" "c \<notin> set y" using split_on_parts[of c k] assms by simp_all
  have "c \<notin> set a"
  proof
    assume "c \<in> set a"
    then obtain a1 a2 where a: "a = a1 @ c # a2" "c \<notin> set a1" by (meson split_list_first)
    with k xy have "a1 @ c # (a2 @ c # b) = x @ c # y" by simp
    from first_sep_unique[OF this a(2) nx(1)] have "y = a2 @ c # b" by simp
    with nx(2) show False by simp
  qed
  moreover have "a @ c # b = x @ c # y" using k xy by simp
  ultimately show "a = x \<and> b = y" using nx(1) by (metis first_sep_unique)
next
  assume "a = x \<and> b = y"
  then show "k = a @ c # b" using split_on_two[OF assms] by simp
qed

lemma spec_native_coerce: "spec_native fobj t = to_python fobj (coerce fobj t)"
  by (auto simp: spec_native_def coerce_def Let_def)

lemma reapply_field_value:
  assumes "reapply_field env obj (k, t) = Inr obj'"
  shows "cls obj' = cls obj"
    and "f \<in> set (registry (cls obj)) \<Longrightarrow> k = model_name (cls obj) @ ''.'' @ f
      \<Longrightarrow> spec_apply env (get_field (cls obj) f) (getattr obj f) t = Inr (getattr obj' f)"
    and "\<not> (f \<in> set (registry (cls obj)) \<and> k = model_name (cls obj) @ ''.'' @ f)
      \<Longrightarrow> getattr obj' f = getattr obj f"
proof -
  from assms obtain x y where s: "split_on CHR ''.'' k = [x, y]"
    by (auto simp: reapply_field_def split: list.splits)
  note key = split_on_key[OF s]
  show "cls obj' = cls obj" using assms s
    by (auto simp: reapply_field_def Let_def setattr_def split: if_splits sum.splits)
  show "spec_apply env (get_field (cls obj) f) (getattr obj f) t = Inr (getattr obj' f)"
    if "f \<in> set (registry (cls obj))" "k = model_name (cls obj) @ ''.'' @ f"
  proof -
    from that(2) key[of "model_name (cls obj)" f] have "x = model_name (cls obj)" "y = f" by simp_all
    with assms s that(1) show ?thesis
      by (auto simp: reapply_field_def Let_def setattr_def spec_apply_def spec_native_coerce
          split: if_splits sum.splits)
  qed
  show "getattr obj' f = getattr obj f"
    if "\<not> (f \<in> set (registry (cls obj)) \<and> k = model_name (cls obj) @ ''.'' @ f)"
  proof -
    from that key[of "model_name (cls obj)" f]
    have "y \<in> set (registry (cls obj)) \<Longrightarrow> x = model_name (cls obj) \<Longrightarrow> y \<noteq> f" by auto
    with assms s show ?thesis
      by (auto simp: reapply_field_def Let_def setattr_def split: if_splits sum.splits)
  qed
qed

lemma reapply_diffs_value:
  assumes "reapply_diffs env obj kds = Inr obj'"
  shows "cls obj' = cls obj"
    and "f \<in> set (registry (cls obj))
      \<Longrightarrow> spec_apply_all env (get_field (cls obj) f) (getattr obj f)
            (spec_field_diffs kds (cls obj) f) = Inr (getattr obj' f)"
    and "f \<notin> set (registry (cls obj)) \<Longrightarrow> getattr obj' f = getattr obj f"
  using assms
proof (induction kds arbitrary: obj)
  case Nil
  { case 1 then show ?case by simp }
  { case 2 then show ?case by (simp add: spec_field_diffs_def) }
  { case 3 then show ?case by simp }
next
  case (Cons kd kds)
  obtain k t where kd: "kd = (k, t)" by (cases kd)
  { case 1
    then obtain o1 where o1: "reapply_field env obj (k, t) = Inr o1"
      and r: "reapply_diffs env o1 kds = Inr obj'"
      by (auto simp: kd split: sum.splits)
    from Cons.IH(1)[OF r] reapply_field_value(1)[OF o1] show ?case by simp }
  { case 2
    then obtain o1 where o1: "reapply_field env obj (k, t) = Inr o1"
      and r: "reapply_diffs env o1 kds = Inr obj'"
      by (auto simp: kd split: sum.splits)
    note c = reapply_field_value(1)[OF o1]
    from 2(1) c have f: "f \<in> set (registry (cls o1))" by simp
    note ih = Cons.IH(2)[OF f r, unfolded c]
    show ?case
    proof (cases "k = model_name (cls obj) @ ''.'' @ f")
      case True
      from reapply_field_value(2)[OF o1 2(1) True] ih True show ?thesis
        by (simp add: spec_field_diffs_def kd)
    next
      case False
      then have "getattr o1 f = getattr obj f" using reapply_field_value(3)[OF o1, of f] by simp
      with ih False show ?thesis by (simp add: spec_field_diffs_def kd)
    qed }
  { case 3
    then obtain o1 where o1: "reapply_field env obj (k, t) = Inr o1"
      and r: "reapply_diffs env o1 kds = Inr obj'"
      by (auto simp: kd split: sum.splits)
    note c = reapply_field_value(1)[OF o1]
    from 3(1) c have f: "f \<notin> set (registry (cls o1))" by simp
    from Cons.IH(3)[OF f r] reapply_field_value(3)[OF o1, of f] 3(1) show ?case by simp }
qed

lemma spec_apply_all_append:
  "spec_apply_all env fobj v (xs @ ys)
     = (case spec_apply_all env fobj v xs of
          Inl e \<Rightarrow> Inl e
        | Inr w \<Rightarrow> spec_apply_all env fobj w ys)"
  by (induction xs arbitrary: v) (auto split: sum.splits)

lemma replay_value:
  assumes "replay env obj cs = Inr obj'"
  shows "f \<in> set (registry (cls obj))
      \<Longrightarrow> spec_revert env (cls obj) f (getattr obj f) cs = Inr (getattr obj' f)"
    and "f \<notin> set (registry (cls obj)) \<Longrightarrow> getattr obj' f = getattr obj f"
  using assms
proof (induction cs arbitrary: obj)
  case Nil
  { case 1 then show ?case by (simp add: spec_revert_def) }
  { case 2 then show ?case by simp }
next
  case (Cons c cs)
  { case 1
    then obtain o1 where o1: "reapply_diffs env obj (diff_split_by_fields env (delta c)) = Inr o1"
      and r: "replay env o1 cs = Inr obj'"
      by (auto split: sum.splits)
    note v = reapply_diffs_value[OF o1]
    from 1(1) v(1) have f: "f \<in> set (registry (cls o1))" by simp
    from Cons.IH(1)[OF f r] v(1) v(2)[OF 1(1)] show ?case
      by (simp add: spec_revert_def spec_apply_all_append) }
  { case 2
    then obtain o1 where o1: "reapply_diffs env obj (diff_split_by_fields env (delta c)) = Inr o1"
      and r: "replay env o1 cs = Inr obj'"
      by (auto split: sum.splits)
    note v = reapply_diffs_value[OF o1]
    from 2(1) v(1) have f: "f \<notin> set (registry (cls o1))" by simp
    from Cons.IH(2)[OF f r] v(3)[OF 2(1)] show ?case by simp }
qed

lemma content_object_load:
  assumes "content_object env d r = Some obj"
  shows "\<exists>m live. find (\<lambda>m. model_name m = content_type r) (registered env) = Some m
      \<and> map_of (entities d) (content_type r, object_id r) = Some live
      \<and> cls obj = m \<and> getattr obj = live"
  using assms by (auto simp: content_object_def load_def split: option.splits)

lemma flagged_append:
  assumes "flagged d x" "revisions d' = revisions d @ [r]" "\<forall>y\<in>set (revisions d). rev_id y \<noteq> rev_id r"
  shows "flagged d' x"
proof -
  from flaggedD(1)[OF assms(1)] obtain y0 where y0: "y0 \<in> set (revisions d)" "rev_id y0 = rev_id x"
    by blast
  show ?thesis
  proof (rule flaggedI[of y0])
    show "y0 \<in> set (revisions d')" using y0(1) assms(2) by simp
    show "rev_id y0 = rev_id x" by (rule y0(2))
    fix y assume y: "y \<in> set (revisions d')" "rev_id y = rev_id x"
    with assms(2,3) y0 have "y \<in> set (revisions d)" by auto
    with flaggedD(2)[OF assms(1)] y(2) show "reverted y" by blast
  qed
qed

lemma entity_save_keeps_flag:
  assumes "entity_save env d req instance = (d', Inr obj)"
    and "id_attr (case revision_info instance of None \<Rightarrow> [] | Some i \<Rightarrow> i) = PNone"
    and "flagged d x"
  shows "flagged d' x"
proof -
  from entity_save_insert(1)[OF assms(1,2)] obtain r where
    r: "revisions d' = revisions d @ [r]" "rev_id r = Some (next_id (revisions d))" by blast
  have "\<forall>y\<in>set (revisions d). rev_id y \<noteq> rev_id r"
    using next_id_fresh[of _ "revisions d"] r(2) by simp
  from flagged_append[OF assms(3) r(1) this] show ?thesis .
qed

lemma reverted_to_first_result:
  "(case reverted_to_first None of
      (d, res) \<Rightarrow>
        \<not> isl res
        \<and> map (\<lambda>r. (revision r, reverted r, comment r, editor_ip r, editor r)) (revisions d)
          = [(1, False, [], None, None), (2, True, [], None, None), (3, True, [], None, None),
             (4, False, ''Reverted to revision #1'', Some ''10.0.0.1'', None)])"
  by code_simp

lemma legacy_revert_result:
  "(case reapply shop legacy None (change 1 [] ''A'') PNone PNone of
      (d, res) \<Rightarrow>
        (case res of Inl e \<Rightarrow> e = ValidationError | Inr obj \<Rightarrow> False)
        \<and> map (\<lambda>r. (revision r, reverted r)) (revisions d) = [(1, False), (2, False), (3, True)])"
  by code_simp

lemma history_has_ids: "\<forall>x\<in>set (revisions history). rev_id x \<noteq> None"
  by (simp add: history_def change_def)

lemma legacy_has_ids: "\<forall>x\<in>set (revisions legacy). rev_id x \<noteq> None"
  by (simp add: legacy_def legacy_change_def change_def)

lemma legacy_object: "content_object shop legacy (change 1 [] ''A'') = Some (article_with ''C'')"
  by (simp add: content_object_def legacy_def history_def shop_def codec_def load_def
      article_with_def change_def Article_def)

lemma legacy_next: "next_changes legacy (change 1 [] ''A'') = [change 3 ''B'' ''C''] @ legacy_change # []"
  by code_simp

lemma legacy_first:
  "\<not> isl (snd (reapply_changes shop legacy (article_with ''C'') [change 3 ''B'' ''C'']))"
  by code_simp

lemma legacy_second:
  "(case reapply_diffs shop
       (projr (snd (reapply_changes shop legacy (article_with ''C'') [change 3 ''B'' ''C''])))
       (diff_split_by_fields shop (delta legacy_change)) of
     Inl e \<Rightarrow> e = ValidationError | Inr obj \<Rightarrow> False)"
  by code_simp

text \<open>
  C8 at a failing input: article 1 is reverted to its first revision with the
  editor \<open>ann\<close> (primary key 7) and the address 10.0.0.1, no request in
  flight. The revert succeeds and the new revision 4 carries the comment and
  the address, and no editor.
\<close>

theorem revert_drops_the_editor:
  "\<not> isl (snd (reverted_to_first None))
   \<and> map (\<lambda>r. (revision r, reverted r, comment r, editor_ip r, editor r))
        (revisions (fst (reverted_to_first None)))
      = [(1, False, [], None, None), (2, True, [], None, None), (3, True, [], None, None),
         (4, False, ''Reverted to revision #1'', Some ''10.0.0.1'', None)]"
  using reverted_to_first_result by (cases "reverted_to_first None") simp

text \<open>
  C4. When \<open>reapply\<close> succeeds on a store whose rows all have ids: the
  revisions it consumes are exactly those of the same object reference with a
  number strictly greater than that of \<open>self\<close>, taken from the greatest
  number down; every tracked field of the saved entity, in memory and in the
  store, has the value that the replay of the spec gives: the value of the live
  entity after the field diffs of these revisions were applied to it in that
  order; every other attribute is the live entity's; and every consumed
  revision is flagged in the resulting store.
\<close>

theorem reapply_replays_newer_revisions:
  assumes "reapply env d req self ip ed = (d', Inr obj')"
    and "\<forall>x\<in>set (revisions d). rev_id x \<noteq> None"
  shows "set (next_changes d self) =
        {x \<in> set (revisions d). same_object (content_type self) (object_id self) x
           \<and> revision self < revision x}
    \<and> sorted (rev (map revision (next_changes d self)))
    \<and> (\<exists>m live. find (\<lambda>m. model_name m = content_type self) (registered env) = Some m
          \<and> map_of (entities d) (content_type self, object_id self) = Some live
          \<and> (\<forall>f\<in>set (registry m).
                spec_revert env m f (live f) (next_changes d self) = Inr (getattr obj' f))
          \<and> (\<forall>f. f \<notin> set (registry m) \<longrightarrow> getattr obj' f = live f)
          \<and> map_of (entities d') (content_type self, object_id self) = Some (getattr obj'))
    \<and> (\<forall>x\<in>set (next_changes d self). flagged d' x)"
proof -
  from assms(1) obtain obj where co: "content_object env d self = Some obj"
    by (auto simp: reapply_def split: option.splits)
  from content_object_load[OF co] obtain m live where
    m: "find (\<lambda>m. model_name m = content_type self) (registered env) = Some m"
      "map_of (entities d) (content_type self, object_id self) = Some live"
      "cls obj = m" "getattr obj = live" by blast
  obtain d1 res where rc0: "reapply_changes env d obj (next_changes d self) = (d1, res)"
    by (cases "reapply_changes env d obj (next_changes d self)")
  with assms(1) co obtain obj1 where res: "res = Inr obj1"
    by (cases res) (auto simp: reapply_def)
  note rc = rc0[unfolded res]
  let ?info = "[(''comment'', PStr (''Reverted to revision #'' @ show_int (revision self))),
       (''editor_ip'', ip), (''editor'', ed)]"
  let ?inst = "obj1\<lparr>revision_info := Some ?info\<rparr>"
  from assms(1) co rc have es: "entity_save env d1 req ?inst = (d', Inr obj')"
    by (simp add: reapply_def)
  have noid: "id_attr (case revision_info ?inst of None \<Rightarrow> [] | Some i \<Rightarrow> i) = PNone"
    by (simp add: id_attr_def attr_def)
  have ids: "\<forall>x\<in>set (next_changes d self). rev_id x \<noteq> None"
    using assms(2) by (simp add: set_next_changes)
  from reapply_changes_Inr[OF rc ids] have rp: "replay env obj (next_changes d self) = Inr obj1"
    and en: "entities d1 = entities d"
    and fl: "\<forall>x\<in>set (next_changes d self). flagged d1 x" by blast+
  from replay_cls[OF rp] content_object_Some(1,2)[OF co]
  have c: "model_name (cls ?inst) = content_type self" "pk ?inst = Some (object_id self)" by simp_all
  note sv = entity_save_insert[OF es noid]
  have g: "getattr obj' = getattr obj1" using sv(2) by simp
  have "pk obj' = Some (object_id self)" using sv(4) c(2) by simp
  with sv(5) c(1) have "entities d' =
      put_row (entities d1) (content_type self, object_id self) (getattr obj1)" by auto
  then have st: "map_of (entities d') (content_type self, object_id self) = Some (getattr obj')"
    using g by (simp add: map_of_put_row)
  have v: "\<forall>f\<in>set (registry m).
      spec_revert env m f (live f) (next_changes d self) = Inr (getattr obj' f)"
    using replay_value(1)[OF rp] m(3,4) g by simp
  have u: "\<forall>f. f \<notin> set (registry m) \<longrightarrow> getattr obj' f = live f"
    using replay_value(2)[OF rp] m(3,4) g by simp
  have "\<forall>x\<in>set (next_changes d self). flagged d' x"
    using fl entity_save_keeps_flag[OF es noid] by blast
  with m(1,2) v u st set_next_changes[of d self] next_changes_descending[of d self]
  show ?thesis by blast
qed

lemma history_article:
  "find (\<lambda>m. model_name m = content_type (change 1 [] ''A'')) (registered shop) = Some Article"
  "map_of (entities history) (content_type (change 1 [] ''A''), object_id (change 1 [] ''A''))
     = Some (getattr (article_with ''C''))"
  by (simp_all add: history_def shop_def codec_def change_def Article_def)

lemma history_title_replayed:
  "spec_revert shop Article ''title'' (getattr (article_with ''C'') ''title'')
     (next_changes history (change 1 [] ''A'')) = Inr (PStr ''A'')"
  by code_simp

theorem reapply_replays_newer_revisions_witness:
  "getattr (projr (snd (reverted_to_first None))) ''title'' = PStr ''A''
   \<and> map_option (\<lambda>row. row ''title'') (map_of (entities (fst (reverted_to_first None))) (''Article'', 1))
       = Some (PStr ''A'')
   \<and> list_all (flagged (fst (reverted_to_first None))) (next_changes history (change 1 [] ''A''))
   \<and> sorted (rev (map revision (next_changes history (change 1 [] ''A''))))"
proof -
  have "\<not> isl (snd (reverted_to_first None))"
    using reverted_to_first_result by (cases "reverted_to_first None") simp
  then have "reapply shop history None (change 1 [] ''A'') (PStr ''10.0.0.1'') (PUser ann)
      = (fst (reverted_to_first None), Inr (projr (snd (reverted_to_first None))))"
    unfolding reverted_to_first_def by (metis prod.collapse sum.collapse(2))
  from reapply_replays_newer_revisions[OF this history_has_ids]
  obtain m live where
    m: "find (\<lambda>m. model_name m = content_type (change 1 [] ''A'')) (registered shop) = Some m"
      "map_of (entities history) (content_type (change 1 [] ''A''), object_id (change 1 [] ''A''))
        = Some live"
    and v: "\<forall>f\<in>set (registry m).
      spec_revert shop m f (live f) (next_changes history (change 1 [] ''A''))
        = Inr (getattr (projr (snd (reverted_to_first None))) f)"
    and st: "map_of (entities (fst (reverted_to_first None)))
        (content_type (change 1 [] ''A''), object_id (change 1 [] ''A''))
        = Some (getattr (projr (snd (reverted_to_first None))))"
    and fl: "\<forall>x\<in>set (next_changes history (change 1 [] ''A'')).
        flagged (fst (reverted_to_first None)) x"
    and so: "sorted (rev (map revision (next_changes history (change 1 [] ''A''))))"
    by blast
  from m history_article have ml: "m = Article" "live = getattr (article_with ''C'')" by simp_all
  have "''title'' \<in> set (registry Article)" by (simp add: Article_def)
  with v ml history_title_replayed
  have t: "getattr (projr (snd (reverted_to_first None))) ''title'' = PStr ''A''" by simp
  have k: "(content_type (change 1 [] ''A''), object_id (change 1 [] ''A'')) = (''Article'', 1)"
    by (simp add: change_def)
  from st t k fl so show ?thesis by (simp add: list_all_iff)
qed

text \<open>
  C6, as the code has it. \<open>reapply\<close> is not one transaction: the flag of a
  consumed revision is persisted as soon as its delta has been applied. When
  the deltas of the revisions \<open>xs\<close> were applied and saved and the delta of
  the next revision \<open>y\<close> fails, \<open>reapply\<close> raises that error, the
  revisions \<open>xs\<close> stay flagged in the store, and nothing else was written: no
  row was added to the table of revisions and the entity was not saved.
\<close>

theorem revert_failure_keeps_flags:
  assumes "content_object env d self = Some obj"
    and "next_changes d self = xs @ y # ys"
    and "\<forall>x\<in>set (revisions d). rev_id x \<noteq> None"
    and "reapply_changes env d obj xs = (d1, Inr obj1)"
    and "reapply_diffs env obj1 (diff_split_by_fields env (delta y)) = Inl e"
  shows "reapply env d req self ip ed = (d1, Inl e)
    \<and> (\<forall>x\<in>set xs. flagged d1 x)
    \<and> map rev_id (revisions d1) = map rev_id (revisions d)
    \<and> entities d1 = entities d"
proof -
  have sub: "set xs \<subseteq> set (next_changes d self)" using assms(2) by auto
  then have ids: "\<forall>x\<in>set xs. rev_id x \<noteq> None \<and> rev_id x \<in> rev_id ` set (revisions d)"
    using assms(3) set_next_changes[of d self] by auto
  then have ids': "\<forall>x\<in>set xs. rev_id x \<noteq> None" by blast
  have "reapply_changes env d obj (xs @ y # ys) = (d1, Inl e)"
    using assms(4,5) by (simp add: reapply_changes_append)
  then have 1: "reapply env d req self ip ed = (d1, Inl e)"
    using assms(1,2) by (simp add: reapply_def)
  from reapply_changes_Inr[OF assms(4) ids'] reapply_changes_ids[OF assms(4) ids] 1
  show ?thesis by blast
qed

theorem revert_failure_keeps_flags_witness:
  "isl (snd (reapply shop legacy None (change 1 [] ''A'') PNone PNone))
   \<and> list_all (flagged (fst (reapply shop legacy None (change 1 [] ''A'') PNone PNone)))
        [change 3 ''B'' ''C'']"
proof -
  let ?r = "reapply_changes shop legacy (article_with ''C'') [change 3 ''B'' ''C'']"
  have 4: "?r = (fst ?r, Inr (projr (snd ?r)))"
    using legacy_first by (metis prod.collapse sum.collapse(2))
  have 5: "reapply_diffs shop (projr (snd ?r)) (diff_split_by_fields shop (delta legacy_change))
      = Inl ValidationError"
    using legacy_second
    by (cases "reapply_diffs shop (projr (snd ?r)) (diff_split_by_fields shop (delta legacy_change))")
      simp_all
  from revert_failure_keeps_flags[OF legacy_object legacy_next legacy_has_ids 4 5, of None PNone PNone]
  show ?thesis by (simp add: list_all_iff)
qed

text \<open>
  C6 as the claim states it fails: in the store \<open>legacy\<close> no revision is
  flagged; the revert of article 1 to its first revision applies the delta of
  revision 3 and flags it, fails on the delta of revision 2, and leaves the
  store with revision 3 flagged, revision 2 not, and no new revision.
\<close>

theorem revert_is_not_atomic:
  "map reverted (revisions legacy) = [False, False, False]
   \<and> isl (snd (reapply shop legacy None (change 1 [] ''A'') PNone PNone))
   \<and> map (\<lambda>r. (revision r, reverted r))
        (revisions (fst (reapply shop legacy None (change 1 [] ''A'') PNone PNone)))
      = [(1, False), (2, False), (3, True)]"
proof -
  have "map reverted (revisions legacy) = [False, False, False]"
    by (simp add: legacy_def legacy_change_def change_def)
  then show ?thesis
    using legacy_revert_result
    by (cases "reapply shop legacy None (change 1 [] ''A'') PNone PNone")
      (auto split: sum.splits)
qed

section \<open>The stored delta takes an edit back\<close>

lemma reapply_field_round_trip:
  assumes "f \<in> set (registry (cls obj))"
    and "CHR ''.'' \<notin> set (model_name (cls obj))" and "CHR ''.'' \<notin> set f"
    and "to_python (get_field (cls obj) f) (coerce (get_field (cls obj) f) b) = Inr v"
  shows "reapply_field (codec h ms) obj
      (field_key (cls obj) f, patch_toText (diff (force_unicode (getattr obj f)) b))
      = Inr (setattr obj f v)"
proof -
  have p: "patch_fromText (codec h ms) (patch_toText (diff (force_unicode (getattr obj f)) b))
      = Inr (diff (force_unicode (getattr obj f)) b)"
    by (simp add: codec_def patch_of_text_toText)
  have a: "patch_apply (codec h ms) (diff (force_unicode (getattr obj f)) b)
      (force_unicode (getattr obj f)) = b"
    by (simp add: codec_def apply_patch_diff)
  show ?thesis
    using assms by (simp add: reapply_field_def split_field_key p a)
qed

lemma reapply_diffs_round_trip:
  assumes "CHR ''.'' \<notin> set (model_name (cls obj))"
    and "\<forall>f\<in>set fs. CHR ''.'' \<notin> set f"
    and "set fs \<subseteq> set (registry (cls obj))" and "distinct fs"
    and "\<forall>f\<in>set fs. to_python (get_field (cls obj) f)
           (coerce (get_field (cls obj) f) (force_unicode (old f))) = Inr (old f)"
  shows "\<exists>obj'. reapply_diffs (codec h ms) obj
        (map (\<lambda>f. (field_key (cls obj) f,
                    patch_toText (diff (force_unicode (getattr obj f)) (force_unicode (old f)))))
           fs) = Inr obj'
      \<and> cls obj' = cls obj
      \<and> (\<forall>f\<in>set fs. getattr obj' f = old f)
      \<and> (\<forall>f. f \<notin> set fs \<longrightarrow> getattr obj' f = getattr obj f)"
  using assms
proof (induction fs arbitrary: obj)
  case Nil
  then show ?case by simp
next
  case (Cons f fs)
  let ?o1 = "setattr obj f (old f)"
  have c: "cls ?o1 = cls obj" by (simp add: setattr_def)
  have 1: "reapply_field (codec h ms) obj
      (field_key (cls obj) f,
       patch_toText (diff (force_unicode (getattr obj f)) (force_unicode (old f)))) = Inr ?o1"
    using Cons.prems by (intro reapply_field_round_trip) auto
  have same: "\<forall>g\<in>set fs. getattr ?o1 g = getattr obj g"
    using Cons.prems(4) by (auto simp: setattr_def)
  then have m: "map (\<lambda>g. (field_key (cls obj) g,
        patch_toText (diff (force_unicode (getattr obj g)) (force_unicode (old g))))) fs
      = map (\<lambda>g. (field_key (cls ?o1) g,
        patch_toText (diff (force_unicode (getattr ?o1 g)) (force_unicode (old g))))) fs"
    unfolding c by (intro map_cong) simp_all
  have p1: "CHR ''.'' \<notin> set (model_name (cls ?o1))" using Cons.prems(1) c by simp
  have p2: "\<forall>g\<in>set fs. CHR ''.'' \<notin> set g" using Cons.prems(2) by simp
  have p3: "set fs \<subseteq> set (registry (cls ?o1))" using Cons.prems(3) c by simp
  have p4: "distinct fs" using Cons.prems(4) by simp
  have p5: "\<forall>g\<in>set fs. to_python (get_field (cls ?o1) g)
           (coerce (get_field (cls ?o1) g) (force_unicode (old g))) = Inr (old g)"
    using Cons.prems(5) c by simp
  from Cons.IH[OF p1 p2 p3 p4 p5]
  obtain obj' where o: "reapply_diffs (codec h ms) ?o1
        (map (\<lambda>g. (field_key (cls ?o1) g,
                    patch_toText (diff (force_unicode (getattr ?o1 g)) (force_unicode (old g)))))
           fs) = Inr obj'"
    "cls obj' = cls ?o1" "\<forall>g\<in>set fs. getattr obj' g = old g"
    "\<forall>g. g \<notin> set fs \<longrightarrow> getattr obj' g = getattr ?o1 g" by blast
  have f: "getattr obj' f = old f" using o(4) Cons.prems(4) by (simp add: setattr_def)
  have r: "\<forall>g. g \<notin> set (f # fs) \<longrightarrow> getattr obj' g = getattr obj g"
    using o(4) by (simp add: setattr_def)
  have "reapply_diffs (codec h ms) obj
        (map (\<lambda>g. (field_key (cls obj) g,
                    patch_toText (diff (force_unicode (getattr obj g)) (force_unicode (old g)))))
           (f # fs)) = Inr obj'"
    unfolding list.map reapply_diffs.simps 1 sum.case m by (rule o(1))
  with o(2,3) c f r show ?case by auto
qed

lemma field_key_distinct:
  "distinct fs \<Longrightarrow> distinct (map (field_key m) fs)"
  by (simp add: distinct_map inj_on_def field_key_def)

text \<open>
  C1. An edit is saved: the store holds the row \<open>old\<close> of the entity, the
  instance holds the new values, and \<open>revision_info\<close> names no stored
  Revision. The Revision that the save adds to the table has a delta of one
  field diff per tracked field, under the key of the field, and that diff is
  \<open>diff(new, old)\<close> on the texts of the two values. The stored diff of a
  field, applied to the text of the field's value after the edit, gives the
  text of its value before the edit: \<open>apply(diff(new, old), new) = old\<close>,
  whatever the two values are. And applying the stored delta to the saved
  instance, as \<open>reapply\<close> does, gives every tracked field its value of
  before the edit, when every field reads the text of that value back as the
  value.
\<close>

theorem reverse_diff_round_trip:
  assumes "entity_save (codec h ms) d req inst = (d', Inr obj)"
    and "id_attr (case revision_info inst of None \<Rightarrow> [] | Some i \<Rightarrow> i) = PNone"
    and "pk inst = Some k"
    and "map_of (entities d) (model_name (cls inst), k) = Some old"
    and "distinct (registry (cls inst))"
    and "CHR ''.'' \<notin> set (model_name (cls inst))"
    and "\<forall>f\<in>set (registry (cls inst)). CHR ''.'' \<notin> set f"
  shows "\<exists>r. revisions d' = revisions d @ [r]
      \<and> getattr obj = getattr inst
      \<and> diff_split_by_fields (codec h ms) (delta r)
          = map (\<lambda>f. (field_key (cls inst) f,
                       patch_toText (diff (force_unicode (getattr inst f))
                                          (force_unicode (old f)))))
              (registry (cls inst))
      \<and> (\<forall>f\<in>set (registry (cls inst)).
            \<exists>t p. map_of (diff_split_by_fields (codec h ms) (delta r))
                     (field_key (cls inst) f) = Some t
              \<and> patch_fromText (codec h ms) t = Inr p
              \<and> patch_apply (codec h ms) p (force_unicode (getattr obj f))
                  = force_unicode (old f))
      \<and> ((\<forall>f\<in>set (registry (cls inst)).
              to_python (get_field (cls inst) f)
                (coerce (get_field (cls inst) f) (force_unicode (old f))) = Inr (old f))
           \<longrightarrow> (\<exists>obj'. reapply_diffs (codec h ms) obj
                          (diff_split_by_fields (codec h ms) (delta r)) = Inr obj'
                      \<and> (\<forall>f\<in>set (registry (cls inst)). getattr obj' f = old f)))"
proof -
  let ?t = "\<lambda>f. patch_toText (diff (force_unicode (getattr inst f)) (force_unicode (old f)))"
  let ?blocks = "map (\<lambda>f. (field_key (cls inst) f, ?t f)) (registry (cls inst))"
  note sv = entity_save_insert[OF assms(1,2)]
  from sv(1) obtain r where r: "revisions d' = revisions d @ [r]"
    "delta r = obj_diff (codec h ms) inst (original_of d inst)" by blast
  have o: "original_of d inst = load (cls inst) k old"
    using assms(3,4) by (simp add: original_of_def)
  have b: "diff_split_by_fields (codec h ms) (delta r) = ?blocks"
    unfolding r(2) o by (simp add: codec_def spec_obj_diff_def unpack_pack load_def)
  have t: "\<forall>f\<in>set (registry (cls inst)).
      \<exists>t p. map_of (diff_split_by_fields (codec h ms) (delta r)) (field_key (cls inst) f) = Some t
        \<and> patch_fromText (codec h ms) t = Inr p
        \<and> patch_apply (codec h ms) p (force_unicode (getattr obj f)) = force_unicode (old f)"
  proof
    fix f assume f: "f \<in> set (registry (cls inst))"
    have "distinct (map fst ?blocks)"
      using field_key_distinct[OF assms(5), of "cls inst"] by (simp add: comp_def)
    moreover have "(field_key (cls inst) f, ?t f) \<in> set ?blocks" using f by auto
    ultimately have 1: "map_of ?blocks (field_key (cls inst) f) = Some (?t f)"
      by (rule map_of_is_SomeI)
    have 2: "patch_fromText (codec h ms) (?t f)
        = Inr (diff (force_unicode (getattr inst f)) (force_unicode (old f)))"
      by (simp add: codec_def patch_of_text_toText)
    have 3: "patch_apply (codec h ms) (diff (force_unicode (getattr inst f)) (force_unicode (old f)))
        (force_unicode (getattr obj f)) = force_unicode (old f)"
      unfolding sv(2) by (simp add: codec_def apply_patch_diff)
    from 1 2 3 show "\<exists>t p. map_of (diff_split_by_fields (codec h ms) (delta r))
          (field_key (cls inst) f) = Some t
        \<and> patch_fromText (codec h ms) t = Inr p
        \<and> patch_apply (codec h ms) p (force_unicode (getattr obj f)) = force_unicode (old f)"
      unfolding b by blast
  qed
  have v: "\<exists>obj'. reapply_diffs (codec h ms) obj
        (diff_split_by_fields (codec h ms) (delta r)) = Inr obj'
      \<and> (\<forall>f\<in>set (registry (cls inst)). getattr obj' f = old f)"
    if p: "\<forall>f\<in>set (registry (cls inst)).
        to_python (get_field (cls inst) f)
          (coerce (get_field (cls inst) f) (force_unicode (old f))) = Inr (old f)"
  proof -
    have "\<exists>obj'. reapply_diffs (codec h ms) obj
          (map (\<lambda>f. (field_key (cls obj) f,
                      patch_toText (diff (force_unicode (getattr obj f)) (force_unicode (old f)))))
             (registry (cls inst))) = Inr obj'
        \<and> cls obj' = cls obj
        \<and> (\<forall>f\<in>set (registry (cls inst)). getattr obj' f = old f)
        \<and> (\<forall>f. f \<notin> set (registry (cls inst)) \<longrightarrow> getattr obj' f = getattr obj f)"
      using assms(5,6,7) p sv(3) by (intro reapply_diffs_round_trip) simp_all
    then show ?thesis unfolding b sv(2) sv(3) by blast
  qed
  from r(1) sv(2) b t v show ?thesis by blast
qed

lemma edit_saved: "\<not> isl (snd (entity_save shop history None (article_with ''D'')))"
  by code_simp

lemma edit_blocks:
  "map (\<lambda>f. (field_key (cls (article_with ''D'')) f,
              patch_toText (diff (force_unicode (getattr (article_with ''D'') f))
                                 (force_unicode (getattr (article_with ''C'') f)))))
     (registry (cls (article_with ''D'')))
   = [(''Article.title'', ''10=110-D110+C10=''),
      (''Article.public'', ''1111110=False10-10+10='')]"
  by code_simp

theorem reverse_diff_round_trip_witness:
  "\<exists>r obj'. revisions (fst (entity_save shop history None (article_with ''D'')))
        = revisions history @ [r]
     \<and> diff_split_by_fields shop (delta r)
         = [(''Article.title'', ''10=110-D110+C10=''),
            (''Article.public'', ''1111110=False10-10+10='')]
     \<and> getattr (projr (snd (entity_save shop history None (article_with ''D'')))) ''title''
         = PStr ''D''
     \<and> (\<exists>p. patch_fromText shop ''10=110-D110+C10='' = Inr p \<and> patch_apply shop p ''D'' = ''C'')
     \<and> reapply_diffs shop (projr (snd (entity_save shop history None (article_with ''D''))))
          (diff_split_by_fields shop (delta r)) = Inr obj'
     \<and> getattr obj' ''title'' = PStr ''C''
     \<and> getattr obj' ''public'' = PBool False"
proof -
  let ?e = "entity_save shop history None (article_with ''D'')"
  let ?E = "codec digest [Article]"
  have 1: "entity_save ?E history None (article_with ''D'') = (fst ?e, Inr (projr (snd ?e)))"
    using edit_saved unfolding shop_def by (metis prod.collapse sum.collapse(2))
  have 2: "id_attr (case revision_info (article_with ''D'') of None \<Rightarrow> [] | Some i \<Rightarrow> i) = PNone"
    by code_simp
  have 3: "pk (article_with ''D'') = Some 1" by (simp add: article_with_def)
  have 4: "map_of (entities history) (model_name (cls (article_with ''D'')), 1)
      = Some (getattr (article_with ''C''))"
    by (simp add: history_def article_with_def Article_def)
  have 5: "distinct (registry (cls (article_with ''D'')))"
    by (simp add: article_with_def Article_def)
  have 6: "CHR ''.'' \<notin> set (model_name (cls (article_with ''D'')))"
    by (simp add: article_with_def Article_def)
  have 7: "\<forall>f\<in>set (registry (cls (article_with ''D''))). CHR ''.'' \<notin> set f"
    by (simp add: article_with_def Article_def)
  have 8: "\<forall>f\<in>set (registry (cls (article_with ''D''))).
      to_python (get_field (cls (article_with ''D'')) f)
        (coerce (get_field (cls (article_with ''D'')) f)
           (force_unicode (getattr (article_with ''C'') f)))
        = Inr (getattr (article_with ''C'') f)"
    by (simp add: article_with_def Article_def coerce_def char_field_def boolean_field_def)
  have 9: "''title'' \<in> set (registry (cls (article_with ''D'')))"
    by (simp add: article_with_def Article_def)
  from reverse_diff_round_trip[OF 1 2 3 4 5 6 7] 8
  obtain r obj' where
    r: "revisions (fst ?e) = revisions history @ [r]"
      "getattr (projr (snd ?e)) = getattr (article_with ''D'')"
      "diff_split_by_fields ?E (delta r)
        = map (\<lambda>f. (field_key (cls (article_with ''D'')) f,
              patch_toText (diff (force_unicode (getattr (article_with ''D'') f))
                                 (force_unicode (getattr (article_with ''C'') f)))))
            (registry (cls (article_with ''D'')))"
      "\<forall>f\<in>set (registry (cls (article_with ''D''))).
         \<exists>t p. map_of (diff_split_by_fields ?E (delta r))
                  (field_key (cls (article_with ''D'')) f) = Some t
           \<and> patch_fromText ?E t = Inr p
           \<and> patch_apply ?E p (force_unicode (getattr (projr (snd ?e)) f))
               = force_unicode (getattr (article_with ''C'') f)"
      "reapply_diffs ?E (projr (snd ?e)) (diff_split_by_fields ?E (delta r)) = Inr obj'"
      "\<forall>f\<in>set (registry (cls (article_with ''D''))).
         getattr obj' f = getattr (article_with ''C'') f"
    by blast
  note blocks = r(3)[unfolded edit_blocks]
  have t: "getattr obj' ''title'' = PStr ''C''" "getattr obj' ''public'' = PBool False"
    using r(6) by (simp_all add: article_with_def Article_def)
  have n: "getattr (projr (snd ?e)) ''title'' = PStr ''D''"
    using r(2) by (simp add: article_with_def)
  have k: "field_key (cls (article_with ''D'')) ''title'' = ''Article.title''"
    by (simp add: field_key_def article_with_def Article_def)
  from r(4) 9 obtain t0 p where
    p: "map_of (diff_split_by_fields ?E (delta r)) (field_key (cls (article_with ''D'')) ''title'')
          = Some t0"
      "patch_fromText ?E t0 = Inr p"
      "patch_apply ?E p (force_unicode (getattr (projr (snd ?e)) ''title''))
        = force_unicode (getattr (article_with ''C'') ''title'')"
    by blast
  from p(1) have "t0 = ''10=110-D110+C10=''" unfolding blocks k by simp
  with p(2,3) n have "\<exists>p. patch_fromText ?E ''10=110-D110+C10='' = Inr p
      \<and> patch_apply ?E p ''D'' = ''C''"
    by (auto simp: article_with_def)
  with r(1,5) blocks t n show ?thesis
    unfolding shop_def by blast
qed

section \<open>Rendering the diff of a revision\<close>






lemma display_loop_mid:
  "n \<noteq> i + length cs \<Longrightarrow> n > i + length cs \<Longrightarrow>
     display_loop env n i old nr cs =
       (case display_replay env old cs of Inl e \<Rightarrow> Inl e | Inr old' \<Rightarrow> Inr (old', nr))"
proof (induction cs arbitrary: i old)
  case Nil
  then show ?case by simp
next
  case (Cons c cs)
  then show ?case by (auto simp: Let_def split: sum.splits)
qed


lemma display_field_cls:
  "display_field env old kd = Inr old' \<Longrightarrow> cls old' = cls old"
  by (auto simp: display_field_def setattr_def split: list.splits if_splits sum.splits)

lemma display_diffs_cls:
  "display_diffs env old kds = Inr old' \<Longrightarrow> cls old' = cls old"
proof (induction kds arbitrary: old)
  case Nil
  then show ?case by simp
next
  case (Cons kd kds)
  then show ?case by (auto split: sum.splits dest!: display_field_cls)
qed



lemma sorted_wrt_conj:
  "sorted_wrt P xs \<Longrightarrow> sorted_wrt Q xs \<Longrightarrow> sorted_wrt (\<lambda>x y. P x y \<and> Q x y) xs"
  by (induction xs) auto

lemma sorted_wrt_per_object:
  assumes "\<And>ct oid. sorted_wrt R (filter (same_object ct oid) xs)"
  shows "sorted_wrt (\<lambda>x y. same_object (content_type x) (object_id x) y \<longrightarrow> R x y) xs"
  using assms
proof (induction xs)
  case Nil
  then show ?case by simp
next
  case (Cons a xs)
  have rest: "sorted_wrt R (filter (same_object ct oid) xs)" for ct oid
    using Cons.prems[of ct oid] by (cases "same_object ct oid a") simp_all
  have "\<forall>y\<in>set xs. same_object (content_type a) (object_id a) y \<longrightarrow> R a y"
    using Cons.prems[of "content_type a" "object_id a"] by (simp add: same_object_def)
  with Cons.IH[OF rest] show ?case by simp
qed

lemma numbered_ordered:
  assumes "numbered d"
  shows "ordered d"
proof -
  from assms have 1: "sorted_wrt (\<lambda>x y. id_key x < id_key y) (revisions d)"
    by (simp add: numbered_def sorted_wrt_map)
  have "sorted_wrt (\<lambda>x y. revision x < revision y) (filter (same_object ct oid) (revisions d))" for ct oid
  proof -
    from assms have "map revision (of_object d ct oid) = map int [1..<Suc (length (of_object d ct oid))]"
      unfolding numbered_def by blast
    then have "sorted_wrt (<) (map revision (of_object d ct oid))"
      using sorted_wrt_upto_int by simp
    then show ?thesis by (simp add: of_object_def sorted_wrt_map)
  qed
  then have 2: "sorted_wrt (\<lambda>x y. same_object (content_type x) (object_id x) y
      \<longrightarrow> revision x < revision y) (revisions d)"
    by (rule sorted_wrt_per_object)
  from sorted_wrt_conj[OF 1 2] show ?thesis by (simp add: ordered_def)
qed






section \<open>The reverted flag is never read\<close>

lemma unflag_fields [simp]:
  "rev_id (unflag r) = rev_id r" "revision (unflag r) = revision r" "delta (unflag r) = delta r"
  "content_type (unflag r) = content_type r" "object_id (unflag r) = object_id r"
  "id_key (unflag r) = id_key r" "same_object ct oid (unflag r) = same_object ct oid r"
  by (simp_all add: unflag_def id_key_def same_object_def)

lemma unflag_flag [simp]: "unflag (r\<lparr>reverted := b\<rparr>) = unflag r"
  by (simp add: unflag_def)

lemma set_flag_unflag: "unflag r = unflag s \<Longrightarrow> r\<lparr>reverted := b\<rparr> = s\<lparr>reverted := b\<rparr>"
  by (cases r, cases s) (simp add: unflag_def)

lemma map_through_unflag:
  assumes "\<And>r. f (unflag r) = f r" "map unflag xs = map unflag ys"
  shows "map f xs = map f ys"
proof -
  have "map f xs = map f (map unflag xs)" using assms(1) by simp
  also have "\<dots> = map f (map unflag ys)" by (simp only: assms(2))
  also have "\<dots> = map f ys" using assms(1) by simp
  finally show ?thesis .
qed

lemma filter_through_unflag:
  assumes "\<And>r. P (unflag r) = P r" "map unflag xs = map unflag ys"
  shows "map unflag (filter P xs) = map unflag (filter P ys)"
proof -
  have "map unflag (filter P zs) = filter P (map unflag zs)" for zs
    using assms(1) by (induction zs) simp_all
  then show ?thesis using assms(2) by simp
qed

lemma insort_key_through_unflag:
  assumes "\<And>r. k (unflag r) = k r"
  shows "map unflag (insort_key k x zs) = insort_key k (unflag x) (map unflag zs)"
  using assms by (induction zs) simp_all

lemma sort_key_through_unflag:
  assumes "\<And>r. k (unflag r) = k r" "map unflag xs = map unflag ys"
  shows "map unflag (sort_key k xs) = map unflag (sort_key k ys)"
proof -
  have "map unflag (sort_key k zs) = sort_key k (map unflag zs)" for zs
    using assms(1) by (induction zs) (simp_all add: insort_key_through_unflag)
  then show ?thesis using assms(2) by simp
qed

lemma list_ex_through_unflag:
  assumes "\<And>r. P (unflag r) = P r" "map unflag xs = map unflag ys"
  shows "list_ex P xs = list_ex P ys"
proof -
  have "list_ex P zs = list_ex P (map unflag zs)" for zs
    using assms(1) by (induction zs) simp_all
  then show ?thesis using assms(2) by metis
qed

lemma get_for_object_sim:
  assumes "sim a b"
  shows "map unflag (get_for_object a ct oid) = map unflag (get_for_object b ct oid)"
proof -
  from assms have "map unflag (revisions a) = map unflag (revisions b)" by (simp add: sim_def)
  then have "map unflag (filter (same_object ct oid) (revisions a))
      = map unflag (filter (same_object ct oid) (revisions b))"
    by (rule filter_through_unflag[rotated]) simp
  then have "map unflag (sort_key id_key (filter (same_object ct oid) (revisions a)))
      = map unflag (sort_key id_key (filter (same_object ct oid) (revisions b)))"
    by (rule sort_key_through_unflag[rotated]) simp
  then show ?thesis unfolding get_for_object_def order_by_id_desc_def by (metis rev_map)
qed

lemma latest_sim:
  assumes "map unflag xs = map unflag ys"
  shows "map_option revision (latest xs) = map_option revision (latest ys)"
proof -
  from assms have "map unflag (sort_key id_key xs) = map unflag (sort_key id_key ys)"
    by (rule sort_key_through_unflag[rotated]) simp
  then have "map unflag (order_by_id_desc xs) = map unflag (order_by_id_desc ys)"
    unfolding order_by_id_desc_def by (metis rev_map)
  then have "map revision (order_by_id_desc xs) = map revision (order_by_id_desc ys)"
    by (rule map_through_unflag[rotated]) simp
  then show ?thesis
    by (cases "order_by_id_desc xs"; cases "order_by_id_desc ys") (simp_all add: latest_def)
qed

lemma prepare_sim:
  assumes "sim a b"
  shows "prepare h a r = prepare h b r"
proof -
  let ?la = "latest (get_for_object a (content_type r) (object_id r))"
  let ?lb = "latest (get_for_object b (content_type r) (object_id r))"
  have "map_option revision ?la = map_option revision ?lb"
    by (rule latest_sim[OF get_for_object_sim[OF assms]])
  then show ?thesis
    by (cases ?la; cases ?lb) (simp_all add: prepare_def Let_def)
qed

lemma conflict_sim:
  assumes "sim a b"
  shows "conflict (revisions a) r = conflict (revisions b) r"
  unfolding conflict_def
  by (rule list_ex_through_unflag) (use assms in \<open>simp_all add: sim_def\<close>)

lemma next_id_sim:
  assumes "sim a b"
  shows "next_id (revisions a) = next_id (revisions b)"
proof -
  have "map id_key (revisions a) = map id_key (revisions b)"
    by (rule map_through_unflag) (use assms in \<open>simp_all add: sim_def\<close>)
  then show ?thesis by (simp add: next_id_def)
qed

lemma sim_append: "sim a b \<Longrightarrow> sim (a\<lparr>revisions := revisions a @ [r]\<rparr>) (b\<lparr>revisions := revisions b @ [r]\<rparr>)"
  by (simp add: sim_def)

lemma sim_update:
  assumes "sim a b"
  shows "sim (a\<lparr>revisions := map (\<lambda>x. if rev_id x = Some i then r else x) (revisions a)\<rparr>)
             (b\<lparr>revisions := map (\<lambda>x. if rev_id x = Some i then r else x) (revisions b)\<rparr>)"
proof -
  have h: "map unflag (map (\<lambda>x. if rev_id x = Some i then r else x) zs)
      = map (\<lambda>u. if rev_id u = Some i then unflag r else u) (map unflag zs)" for zs
    by (induction zs) simp_all
  from assms have e: "entities a = entities b"
    and m: "map unflag (revisions a) = map unflag (revisions b)" by (simp_all add: sim_def)
  have "map unflag (map (\<lambda>x. if rev_id x = Some i then r else x) (revisions a))
      = map unflag (map (\<lambda>x. if rev_id x = Some i then r else x) (revisions b))"
    by (simp only: h m)
  then show ?thesis using e by (simp add: sim_def)
qed

lemma super_save_sim:
  assumes "sim a b"
  shows "(case super_save a r of
            Inl e \<Rightarrow> super_save b r = Inl e
          | Inr (a', r') \<Rightarrow> (\<exists>b'. super_save b r = Inr (b', r') \<and> sim a' b'))"
proof (cases "conflict (revisions a) r")
  case True
  then show ?thesis using conflict_sim[OF assms, of r] by (simp add: super_save_def)
next
  case False
  then have nb: "\<not> conflict (revisions b) r" using conflict_sim[OF assms, of r] by simp
  show ?thesis
  proof (cases "rev_id r")
    case None
    then show ?thesis using False nb next_id_sim[OF assms] sim_append[OF assms]
      by (simp add: super_save_def Let_def)
  next
    case (Some i)
    have ex: "list_ex (\<lambda>x. rev_id x = Some i) (revisions a) = list_ex (\<lambda>x. rev_id x = Some i) (revisions b)"
      by (rule list_ex_through_unflag) (use assms in \<open>simp_all add: sim_def\<close>)
    show ?thesis using Some False nb ex sim_update[OF assms] sim_append[OF assms]
      by (simp add: super_save_def)
  qed
qed

lemma save_loop_sim:
  assumes "sim a b"
  shows "sim_res (save_loop a r n) (save_loop b r n)"
  using assms
proof (induction a r n rule: save_loop.induct)
  case (1 d r attempt)
  show ?case
  proof (cases "super_save d r")
    case (Inl e)
    with super_save_sim[OF 1(2), of r] have sb: "super_save b r = Inl e" by simp
    from Inl have e: "e = IntegrityError" by (simp add: super_save_Inl)
    show ?thesis
    proof (cases "attempt + 1 > 20")
      case True
      have "save_loop d r attempt = (d, Inl e)"
        using Inl True e by (subst save_loop.simps) (simp add: save_attempt_def Let_def)
      moreover have "save_loop b r attempt = (b, Inl e)"
        using sb True e by (subst save_loop.simps) (simp add: save_attempt_def Let_def)
      ultimately show ?thesis using 1(2) by (simp add: sim_res_def)
    next
      case False
      let ?r = "r\<lparr>revision := revision r + 1\<rparr>"
      have sa: "save_attempt d r attempt = Retry ?r (attempt + 1)"
        using Inl False e by (simp add: save_attempt_def Let_def)
      have sa': "save_attempt b r attempt = Retry ?r (attempt + 1)"
        using sb False e by (simp add: save_attempt_def Let_def)
      have "save_loop d r attempt = save_loop d ?r (attempt + 1)"
        by (subst save_loop.simps) (simp add: sa)
      moreover have "save_loop b r attempt = save_loop b ?r (attempt + 1)"
        by (subst save_loop.simps) (simp add: sa')
      ultimately show ?thesis using 1(1)[OF sa 1(2)] by simp
    qed
  next
    case (Inr p)
    obtain a' r' where p: "p = (a', r')" by (cases p)
    with Inr super_save_sim[OF 1(2), of r] obtain b' where
      sb: "super_save b r = Inr (b', r')" and s': "sim a' b'" by auto
    have "save_loop d r attempt = (a', Inr r')"
      using Inr p by (subst save_loop.simps) (simp add: save_attempt_def)
    moreover have "save_loop b r attempt = (b', Inr r')"
      using sb by (subst save_loop.simps) (simp add: save_attempt_def)
    ultimately show ?thesis using s' by (simp add: sim_res_def)
  qed
qed

lemma Revision_save_sim:
  assumes "sim a b"
  shows "sim_res (Revision_save h a r) (Revision_save h b r)"
  unfolding Revision_save_def prepare_sim[OF assms] by (rule save_loop_sim[OF assms])

lemma sim_refl: "sim a a"
  by (simp add: sim_def)

lemma sim_reflag: "sim (reflag g d) d"
  by (simp add: sim_def reflag_def unflag_def)

lemma sim_resD:
  assumes "sim_res x y"
  shows "sim (fst x) (fst y)" "snd x = snd y"
  using assms by (simp_all add: sim_res_def)

lemma next_changes_sim:
  assumes "sim a b" "unflag s = unflag t"
  shows "map unflag (next_changes a s) = map unflag (next_changes b t)"
proof -
  from assms(2) have f: "revision s = revision t" "content_type s = content_type t"
    "object_id s = object_id t" by (metis unflag_fields)+
  have "map unflag (filter (\<lambda>x. revision s < revision x) (get_for_object a (content_type s) (object_id s)))
      = map unflag (filter (\<lambda>x. revision s < revision x) (get_for_object b (content_type s) (object_id s)))"
    by (rule filter_through_unflag) (simp_all add: get_for_object_sim[OF assms(1)])
  then have "map unflag (sort_key revision (filter (\<lambda>x. revision s < revision x)
        (get_for_object a (content_type s) (object_id s))))
      = map unflag (sort_key revision (filter (\<lambda>x. revision s < revision x)
        (get_for_object b (content_type s) (object_id s))))"
    by (rule sort_key_through_unflag[rotated]) simp
  then show ?thesis unfolding next_changes_def f by (metis rev_map)
qed

lemma newer_changesets_sim:
  assumes "sim a b" "unflag s = unflag t"
  shows "map unflag (newer_changesets a s) = map unflag (newer_changesets b t)"
proof -
  from assms(2) have f: "revision s = revision t" "content_type s = content_type t"
    "object_id s = object_id t" by (metis unflag_fields)+
  show ?thesis unfolding newer_changesets_def f
    by (rule filter_through_unflag) (simp_all add: get_for_object_sim[OF assms(1)])
qed

lemma content_object_sim:
  assumes "sim a b" "unflag s = unflag t"
  shows "content_object env a s = content_object env b t"
proof -
  from assms(2) have f: "content_type s = content_type t" "object_id s = object_id t"
    by (metis unflag_fields)+
  from assms(1) have e: "entities a = entities b" by (simp add: sim_def)
  show ?thesis unfolding content_object_def f e ..
qed

lemma reapply_changes_sim:
  assumes "sim a b" "map unflag cs = map unflag ds"
  shows "sim_res (reapply_changes env a obj cs) (reapply_changes env b obj ds)"
  using assms
proof (induction cs arbitrary: a b obj ds)
  case Nil
  then show ?case by (simp add: sim_res_def)
next
  case (Cons c cs)
  from Cons.prems(2) obtain d ds' where ds: "ds = d # ds'" and u: "unflag c = unflag d"
    and rest: "map unflag cs = map unflag ds'" by (cases ds) auto
  from u have dl: "delta c = delta d" by (metis unflag_fields(3))
  from u have fl: "c\<lparr>reverted := True\<rparr> = d\<lparr>reverted := True\<rparr>" by (rule set_flag_unflag)
  show ?case
  proof (cases "reapply_diffs env obj (diff_split_by_fields env (delta d))")
    case (Inl e)
    then show ?thesis using Cons.prems(1) by (simp add: ds dl sim_res_def)
  next
    case (Inr obj1)
    note sv = Revision_save_sim[OF Cons.prems(1), of "sha1_hexdigest env" "d\<lparr>reverted := True\<rparr>"]
    obtain a1 ra where sa: "Revision_save (sha1_hexdigest env) a (d\<lparr>reverted := True\<rparr>) = (a1, ra)"
      by (cases "Revision_save (sha1_hexdigest env) a (d\<lparr>reverted := True\<rparr>)")
    obtain b1 rb where sb: "Revision_save (sha1_hexdigest env) b (d\<lparr>reverted := True\<rparr>) = (b1, rb)"
      by (cases "Revision_save (sha1_hexdigest env) b (d\<lparr>reverted := True\<rparr>)")
    from sv sa sb have s1: "sim a1 b1" and r: "ra = rb" by (simp_all add: sim_res_def)
    show ?thesis
    proof (cases rb)
      case (Inl e)
      then show ?thesis using Inr sa sb r s1 by (simp add: ds dl fl sim_res_def)
    next
      case (Inr r1)
      with Cons.IH[OF s1 rest, of obj1] \<open>reapply_diffs env obj (diff_split_by_fields env (delta d)) = Inr obj1\<close>
        sa sb r show ?thesis by (simp add: ds dl fl)
    qed
  qed
qed

lemma original_of_sim:
  assumes "sim a b"
  shows "original_of a i = original_of b i"
proof -
  from assms have e: "entities a = entities b" by (simp add: sim_def)
  show ?thesis unfolding original_of_def e ..
qed

lemma pre_save_sim: "sim a b \<Longrightarrow> pre_save env a req i = pre_save env b req i"
  by (simp add: pre_save_result original_of_sim)

lemma write_entity_sim:
  assumes "sim a b"
  shows "sim (fst (write_entity a i)) (fst (write_entity b i))"
    "snd (write_entity a i) = snd (write_entity b i)"
proof -
  from assms have e: "entities a = entities b"
    and m: "map unflag (revisions a) = map unflag (revisions b)" by (simp_all add: sim_def)
  show "sim (fst (write_entity a i)) (fst (write_entity b i))"
    unfolding write_entity_def Let_def e using m by (simp add: sim_def)
  show "snd (write_entity a i) = snd (write_entity b i)"
    unfolding write_entity_def Let_def e by simp
qed

lemma save_new_sim:
  assumes "sim a b"
  shows "sim_res (save_new env a kw ct k) (save_new env b kw ct k)"
proof (cases "columns env kw ct k")
  case (Inl e)
  then show ?thesis using assms by (simp add: save_new_def sim_res_def)
next
  case (Inr r)
  let ?h = "sha1_hexdigest env"
  have 1: "sim_res (Revision_save ?h a r) (Revision_save ?h b r)"
    by (rule Revision_save_sim[OF assms])
  have 2: "sim_res (case super_save a (prepare ?h a r) of
                      Inl e \<Rightarrow> (a, Inl TypeError) | Inr (d', r') \<Rightarrow> (d', Inr r'))
                   (case super_save b (prepare ?h b r) of
                      Inl e \<Rightarrow> (b, Inl TypeError) | Inr (d', r') \<Rightarrow> (d', Inr r'))"
    using super_save_sim[OF assms, of "prepare ?h a r"] assms
    unfolding prepare_sim[OF assms, symmetric]
    by (cases "super_save a (prepare ?h a r)") (auto simp: sim_res_def)
  have 3: "sim_res (a, (Inl e :: error + Revision)) (b, Inl e)" for e
    using assms by (simp add: sim_res_def)
  show ?thesis
  proof (cases "id_attr kw = PNone \<or> is_number (attr kw ''revision'' PNone)")
    case True
    show ?thesis
    proof (cases "null_column kw k")
      case n: True
      show ?thesis unfolding save_new_def Inr sum.case if_P[OF True] if_P[OF n] by (rule 3)
    next
      case n: False
      show ?thesis unfolding save_new_def Inr sum.case if_P[OF True] if_not_P[OF n] by (rule 1)
    qed
  next
    case False
    show ?thesis
    proof (cases "null_column kw k")
      case n: True
      show ?thesis unfolding save_new_def Inr sum.case if_not_P[OF False] if_P[OF n] by (rule 3)
    next
      case n: False
      show ?thesis unfolding save_new_def Inr sum.case if_not_P[OF False] if_not_P[OF n]
        by (rule 2)
    qed
  qed
qed

lemma post_save_sim:
  assumes "sim a b"
  shows "sim_res (post_save env a i) (post_save env b i)"
proof -
  have "sim_res (case save_new env a kw ct k of
                   (d', Inl e) \<Rightarrow> (d', Inl e) | (d', Inr r') \<Rightarrow> (d', Inr i))
                (case save_new env b kw ct k of
                   (d', Inl e) \<Rightarrow> (d', Inl e) | (d', Inr r') \<Rightarrow> (d', Inr i))"
    for kw ct k
    using save_new_sim[OF assms, of env kw ct k]
    by (cases "save_new env a kw ct k"; cases "save_new env b kw ct k")
      (auto simp: sim_res_def split: sum.splits)
  then show ?thesis using assms
    by (auto simp: post_save_def Let_def sim_res_def split: sum.splits)
qed

lemma entity_save_sim:
  assumes "sim a b"
  shows "sim_res (entity_save env a req i) (entity_save env b req i)"
proof (cases "pre_save env b req i")
  case (Inl e)
  then show ?thesis using assms by (simp add: entity_save_def pre_save_sim[OF assms] sim_res_def)
next
  case (Inr i1)
  obtain a1 ia where wa: "write_entity a i1 = (a1, ia)" by (cases "write_entity a i1")
  obtain b1 ib where wb: "write_entity b i1 = (b1, ib)" by (cases "write_entity b i1")
  from write_entity_sim[OF assms, of i1] wa wb have "sim a1 b1" "ia = ib" by simp_all
  then show ?thesis using Inr wa wb post_save_sim[of a1 b1 env ib]
    by (simp add: entity_save_def pre_save_sim[OF assms])
qed

lemma reapply_sim:
  assumes "sim a b" "unflag s = unflag t"
  shows "sim_res (reapply env a req s ip ed) (reapply env b req t ip ed)"
proof (cases "content_object env b t")
  case None
  then show ?thesis using assms by (simp add: reapply_def content_object_sim[OF assms] sim_res_def)
next
  case (Some obj)
  from assms(2) have rv: "revision s = revision t" by (metis unflag_fields(2))
  let ?ra = "reapply_changes env a obj (next_changes a s)"
  let ?rb = "reapply_changes env b obj (next_changes b t)"
  have rc: "sim_res ?ra ?rb"
    by (rule reapply_changes_sim[OF assms(1) next_changes_sim[OF assms]])
  obtain a1 xa where ra: "?ra = (a1, xa)" by (cases ?ra)
  obtain b1 xb where rb: "?rb = (b1, xb)" by (cases ?rb)
  from rc ra rb have s1: "sim a1 b1" and x: "xa = xb" by (simp_all add: sim_res_def)
  show ?thesis
  proof (cases xb)
    case (Inl e)
    then show ?thesis using Some ra rb x s1
      by (simp add: reapply_def content_object_sim[OF assms] sim_res_def)
  next
    case (Inr obj1)
    then show ?thesis using Some ra rb x entity_save_sim[OF s1]
      by (simp add: reapply_def content_object_sim[OF assms] rv)
  qed
qed

lemma display_loop_sim:
  assumes "map unflag cs = map unflag ds"
  shows "display_loop env n i old nr cs = display_loop env n i old nr ds"
  using assms
proof (induction cs arbitrary: ds i old nr)
  case Nil
  then show ?case by simp
next
  case (Cons c cs)
  from Cons.prems obtain d ds' where ds: "ds = d # ds'" and u: "unflag c = unflag d"
    and rest: "map unflag cs = map unflag ds'" by (cases ds) auto
  from u have dl: "delta c = delta d" by (metis unflag_fields(3))
  show ?case
  proof (cases "display_diffs env old (diff_split_by_fields env (delta d))")
    case (Inl e)
    then show ?thesis by (simp add: ds dl Let_def)
  next
    case (Inr old')
    then show ?thesis
      using Cons.IH[OF rest, of "i + 1" old' "if n = i + 1 then Some old else nr"]
      by (simp add: ds dl Let_def)
  qed
qed

lemma display_diff_sim:
  assumes "sim a b" "unflag s = unflag t"
  shows "display_diff env a s = display_diff env b t"
proof -
  from assms(2) have dl: "delta s = delta t" by (metis unflag_fields(3))
  note n = newer_changesets_sim[OF assms]
  from n have len: "length (newer_changesets a s) = length (newer_changesets b t)"
    by (metis length_map)
  show ?thesis
    unfolding display_diff_def Let_def dl content_object_sim[OF assms] len
      display_loop_sim[OF n] ..
qed

text \<open>
  C10. Whatever the reverted flags of the rows are, and whatever the flag of
  \<open>self\<close> is, \<open>display_diff\<close> returns the same result, \<open>reapply\<close>
  returns the same entity or the same error and leaves the same entities in
  the store, and both select revisions with the same numbers in the same
  order: the flags are never read.
\<close>

theorem replay_ignores_reverted_flags:
  "display_diff env (reflag g d) (self\<lparr>reverted := b\<rparr>) = display_diff env d self
   \<and> snd (reapply env (reflag g d) req (self\<lparr>reverted := b\<rparr>) ip ed)
       = snd (reapply env d req self ip ed)
   \<and> entities (fst (reapply env (reflag g d) req (self\<lparr>reverted := b\<rparr>) ip ed))
       = entities (fst (reapply env d req self ip ed))
   \<and> map revision (next_changes (reflag g d) (self\<lparr>reverted := b\<rparr>))
       = map revision (next_changes d self)
   \<and> map revision (newer_changesets (reflag g d) (self\<lparr>reverted := b\<rparr>))
       = map revision (newer_changesets d self)"
proof -
  have s: "sim (reflag g d) d" by (rule sim_reflag)
  have u: "unflag (self\<lparr>reverted := b\<rparr>) = unflag self" by simp
  from reapply_sim[OF s u, of env req ip ed]
  have "snd (reapply env (reflag g d) req (self\<lparr>reverted := b\<rparr>) ip ed)
       = snd (reapply env d req self ip ed)"
    "entities (fst (reapply env (reflag g d) req (self\<lparr>reverted := b\<rparr>) ip ed))
       = entities (fst (reapply env d req self ip ed))"
    by (simp_all add: sim_res_def sim_def)
  moreover have "map revision (next_changes (reflag g d) (self\<lparr>reverted := b\<rparr>))
       = map revision (next_changes d self)"
    by (rule map_through_unflag[OF _ next_changes_sim[OF s u]]) simp
  moreover have "map revision (newer_changesets (reflag g d) (self\<lparr>reverted := b\<rparr>))
       = map revision (newer_changesets d self)"
    by (rule map_through_unflag[OF _ newer_changesets_sim[OF s u]]) simp
  ultimately show ?thesis using display_diff_sim[OF s u, of env] by blast
qed

end
